theory Spec2Isabelle
  imports Main "HOL-Library.AList"
begin

section \<open>Replacement-step resolver (Spec.setReplacementAlgorithmOffsets)\<close>

text \<open>
  Algorithm elements and biblio entry objects are mutable JavaScript objects that are
  shared by reference between the biblio, the map
  \<open>replacementAlgorithmToContainedLabeledStepEntries\<close> and the resolver. They are
  modelled by references (natural numbers) into explicit stores.
\<close>

type_synonym element = nat
type_synonym addr = nat

text \<open>A biblio entry: its \<open>type\<close> tag, its \<open>id\<close> and, for steps, \<open>stepNumbers\<close>.\<close>

record biblioEntry =
  etype :: string
  eid :: string
  stepNumbers :: "int list"

text \<open>
  The root list of an algorithm (\<open>element.firstElementChild\<close>): the \<open>start\<close> value
  written by the resolver (\<open>None\<close>: nothing written, or \<open>undefined\<close> written) and its
  \<open>classList\<close>.
\<close>

record olist =
  start :: "int option"
  classList :: "string list"

text \<open>The interpolated parts of the three messages of the resolver.\<close>

datatype message =
  CouldNotFindStep string
  | ExpectedStepNotA string
  | CouldNotDetermineOffsets

text \<open>The two variants of \<open>Warning\<close> the resolver emits: \<open>global\<close> and \<open>attr\<close>.\<close>

datatype warning =
  GlobalWarning string message
  | AttrWarning element string string message

datatype error = TypeError

type_synonym 'a result = "(error + 'a) option"

text \<open>
  The part of \<open>Spec\<close> the resolver reads and writes, with the local variable
  \<open>pending\<close> of \<open>setReplacementAlgorithmOffsets\<close> (a \<open>Map\<close>, kept in insertion order).
  \<open>byId\<close> is \<open>Biblio.byId\<close>, which returns the entry object registered under an id.
\<close>

record spec =
  entries :: "addr \<Rightarrow> biblioEntry"
  byId :: "string \<rightharpoonup> addr"
  replacementAlgorithmToContainedLabeledStepEntries :: "element \<rightharpoonup> addr list"
  labeledStepsToBeRectified :: "string set"
  replacementAlgorithms :: "(element \<times> string) list"
  rootLists :: "element \<rightharpoonup> olist"
  warnings :: "warning list"
  pending :: "(string \<times> element list) list"

definition warn :: "warning \<Rightarrow> spec \<Rightarrow> spec" where
  "warn w s = s\<lparr>warnings := warnings s @ [w]\<rparr>"

text \<open>\<open>stepNumbers[stepNumbers.length - 1]\<close>; out of range the read gives \<open>undefined\<close>.\<close>

definition lastStepNumber :: "int list \<Rightarrow> int option" where
  "lastStepNumber nums = (if nums = [] then None else Some (last nums))"

text \<open>The class added for a path of the given length, if any.\<close>

definition nestingClass :: "nat \<Rightarrow> string option" where
  "nestingClass len =
     (if len > 1 then
        (if len = 2 then Some ''nested-once''
         else if len = 3 then Some ''nested-twice''
         else if len = 4 then Some ''nested-thrice''
         else if len = 5 then Some ''nested-four-times''
         else Some ''nested-lots'')
      else None)"

text \<open>\<open>classList.add\<close>: a token already present is not added again.\<close>

definition classListAdd :: "string \<Rightarrow> string list \<Rightarrow> string list" where
  "classListAdd c cs = (if c \<in> set cs then cs else cs @ [c])"

definition setStart :: "int list \<Rightarrow> olist \<Rightarrow> olist" where
  "setStart nums rootList =
     rootList\<lparr>start := lastStepNumber nums,
       classList := (case nestingClass (length nums) of
                       None \<Rightarrow> classList rootList
                     | Some c \<Rightarrow> classListAdd c (classList rootList))\<rparr>"

text \<open>
  The first two statements of the loop body over the contained entries:
  \<open>entry.stepNumbers = [...stepNumbers, ...entry.stepNumbers.slice(1)]\<close> and
  \<open>labeledStepsToBeRectified.delete(entry.id)\<close>.
\<close>

definition rectifyEntry :: "int list \<Rightarrow> addr \<Rightarrow> spec \<Rightarrow> spec" where
  "rectifyEntry nums a s =
     s\<lparr>entries := (entries s)
          (a := (entries s a)\<lparr>stepNumbers := nums @ tl (stepNumbers (entries s a))\<rparr>),
       labeledStepsToBeRectified := labeledStepsToBeRectified s - {eid (entries s a)}\<rparr>"

definition pendingDelete :: "string \<Rightarrow> spec \<Rightarrow> spec" where
  "pendingDelete k s = s\<lparr>pending := AList.delete k (pending s)\<rparr>"

text \<open>
  The closure \<open>setReplacementAlgorithmStart\<close> with its two loops. The recursion goes
  through the mutable \<open>pending\<close> map, so the model carries fuel: the first argument
  bounds the depth of nested calls, and \<open>None\<close> means the fuel ran out. A \<open>TypeError\<close>
  is what the two non-null assertions (\<open>firstElementChild!\<close>, \<open>.get(element)!\<close>) turn
  into when the value is missing. The inner loop reads \<open>entry.stepNumbers\<close> again for
  each replacement algorithm it starts.
\<close>

fun setReplacementAlgorithmStart :: "nat \<Rightarrow> element \<Rightarrow> int list \<Rightarrow> spec \<Rightarrow> spec result"
  and rectifyEntries :: "nat \<Rightarrow> int list \<Rightarrow> addr list \<Rightarrow> spec \<Rightarrow> spec result"
  and startPending :: "nat \<Rightarrow> addr \<Rightarrow> element list \<Rightarrow> spec \<Rightarrow> spec result"
where
  "setReplacementAlgorithmStart 0 element nums s = None"
| "setReplacementAlgorithmStart (Suc fuel) element nums s =
     (case rootLists s element of
        None \<Rightarrow> Some (Inl TypeError)
      | Some rootList \<Rightarrow>
          (case replacementAlgorithmToContainedLabeledStepEntries s element of
             None \<Rightarrow> Some (Inl TypeError)
           | Some es \<Rightarrow>
               rectifyEntries fuel nums es
                 (s\<lparr>rootLists := (rootLists s)(element \<mapsto> setStart nums rootList)\<rparr>)))"
| "rectifyEntries fuel nums [] s = Some (Inr s)"
| "rectifyEntries fuel nums (a # es) s =
     (case map_of (pending s) (eid (entries s a)) of
        None \<Rightarrow> rectifyEntries fuel nums es (rectifyEntry nums a s)
      | Some todo \<Rightarrow>
          (case startPending fuel a todo
                  (pendingDelete (eid (entries s a)) (rectifyEntry nums a s)) of
             None \<Rightarrow> None
           | Some (Inl e) \<Rightarrow> Some (Inl e)
           | Some (Inr s') \<Rightarrow> rectifyEntries fuel nums es s'))"
| "startPending fuel a [] s = Some (Inr s)"
| "startPending fuel a (replacementAlgorithm # todo) s =
     (case setReplacementAlgorithmStart fuel replacementAlgorithm (stepNumbers (entries s a)) s of
        None \<Rightarrow> None
      | Some (Inl e) \<Rightarrow> Some (Inl e)
      | Some (Inr s') \<Rightarrow> startPending fuel a todo s')"

text \<open>
  \<open>if (!pending.has(target)) pending.set(target, []); pending.get(target).push(element)\<close>
\<close>

definition pendingPush :: "string \<Rightarrow> element \<Rightarrow> spec \<Rightarrow> spec" where
  "pendingPush target element s =
     s\<lparr>pending := AList.update target
          (case map_of (pending s) target of None \<Rightarrow> [element] | Some todo \<Rightarrow> todo @ [element])
          (pending s)\<rparr>"

text \<open>The loop over \<open>this.replacementAlgorithms\<close>.\<close>

fun processReplacementAlgorithms ::
  "nat \<Rightarrow> (element \<times> string) list \<Rightarrow> spec \<Rightarrow> spec result" where
  "processReplacementAlgorithms fuel [] s = Some (Inr s)"
| "processReplacementAlgorithms fuel ((element, target) # rest) s =
     (if target \<in> labeledStepsToBeRectified s then
        processReplacementAlgorithms fuel rest (pendingPush target element s)
      else
        (case byId s target of
           None \<Rightarrow>
             processReplacementAlgorithms fuel rest
               (warn (AttrWarning element ''replaces-step'' ''invalid-replacement''
                        (CouldNotFindStep target)) s)
         | Some a \<Rightarrow>
             if etype (entries s a) \<noteq> ''step'' then
               processReplacementAlgorithms fuel rest
                 (warn (AttrWarning element ''replaces-step'' ''invalid-replacement''
                          (ExpectedStepNotA (etype (entries s a)))) s)
             else
               (case setReplacementAlgorithmStart fuel element (stepNumbers (entries s a)) s of
                  None \<Rightarrow> None
                | Some (Inl e) \<Rightarrow> Some (Inl e)
                | Some (Inr s') \<Rightarrow> processReplacementAlgorithms fuel rest s')))"

definition setReplacementAlgorithmOffsets :: "nat \<Rightarrow> spec \<Rightarrow> spec result" where
  "setReplacementAlgorithmOffsets fuel s =
     (case processReplacementAlgorithms fuel (replacementAlgorithms s) (s\<lparr>pending := []\<rparr>) of
        None \<Rightarrow> None
      | Some (Inl e) \<Rightarrow> Some (Inl e)
      | Some (Inr s') \<Rightarrow>
          Some (Inr (if pending s' \<noteq> [] then
                       warn (GlobalWarning ''invalid-replacement'' CouldNotDetermineOffsets) s'
                     else s')))"

subsection \<open>Notions used to state the resolver's properties\<close>

text \<open>The replacement algorithms waiting in \<open>pending\<close>, in map order.\<close>

definition pendingList :: "spec \<Rightarrow> element list" where
  "pendingList s = concat (map snd (pending s))"

definition pendingElems :: "spec \<Rightarrow> element set" where
  "pendingElems s = set (pendingList s)"

text \<open>The entry objects recorded for a replacement algorithm (none when it has no record).\<close>

definition stepsOf :: "spec \<Rightarrow> element \<Rightarrow> addr set" where
  "stepsOf s x =
     (case replacementAlgorithmToContainedLabeledStepEntries s x of
        None \<Rightarrow> {}
      | Some es \<Rightarrow> set es)"

text \<open>
  \<open>unchanged T s s'\<close>: going from \<open>s\<close> to \<open>s'\<close>, only the root lists of the algorithms
  in \<open>T\<close> and the step numbers of their recorded entries may differ, and ids may only
  leave \<open>labeledStepsToBeRectified\<close>.
\<close>

definition unchanged :: "element set \<Rightarrow> spec \<Rightarrow> spec \<Rightarrow> bool" where
  "unchanged T s s' \<longleftrightarrow>
     byId s' = byId s \<and>
     replacementAlgorithmToContainedLabeledStepEntries s' =
       replacementAlgorithmToContainedLabeledStepEntries s \<and>
     replacementAlgorithms s' = replacementAlgorithms s \<and>
     dom (rootLists s') = dom (rootLists s) \<and>
     labeledStepsToBeRectified s' \<subseteq> labeledStepsToBeRectified s \<and>
     (\<forall>x. x \<notin> T \<longrightarrow> rootLists s' x = rootLists s x) \<and>
     (\<forall>a. a \<notin> (\<Union>x\<in>T. stepsOf s x) \<longrightarrow> entries s' a = entries s a) \<and>
     (\<forall>a. eid (entries s' a) = eid (entries s a) \<and> etype (entries s' a) = etype (entries s a))"

text \<open>\<open>shrinks s s'\<close>: no warning was emitted and \<open>pending\<close> only lost keys.\<close>

definition shrinks :: "spec \<Rightarrow> spec \<Rightarrow> bool" where
  "shrinks s s' \<longleftrightarrow> warnings s' = warnings s \<and> (\<exists>P. pending s' = filter P (pending s))"

text \<open>
  What the builder of algorithm elements establishes before the resolver runs, for a set
  \<open>T\<close> of replacement algorithms: each has a root list and a record of contained
  entries, and every entry object is recorded for one algorithm only.
\<close>

definition registered :: "spec \<Rightarrow> element set \<Rightarrow> bool" where
  "registered s T \<longleftrightarrow>
     (\<forall>x\<in>T. rootLists s x \<noteq> None \<and>
        replacementAlgorithmToContainedLabeledStepEntries s x \<noteq> None)"

definition ownSteps :: "spec \<Rightarrow> bool" where
  "ownSteps s \<longleftrightarrow> (\<forall>x y. x \<noteq> y \<longrightarrow> stepsOf s x \<inter> stepsOf s y = {})"

text \<open>A target id that the biblio does not know, or knows as something else than a step.\<close>

definition invalidTarget :: "spec \<Rightarrow> string \<Rightarrow> bool" where
  "invalidTarget s target =
     (case byId s target of None \<Rightarrow> True | Some a \<Rightarrow> etype (entries s a) \<noteq> ''step'')"

text \<open>
  Declarations that can only be reported: the target is not waiting to be rectified and
  is invalid.
\<close>

definition unstartable :: "spec \<Rightarrow> (element \<times> string) list \<Rightarrow> element set" where
  "unstartable s decls =
     {e. \<exists>t. (e, t) \<in> set decls \<and> t \<notin> labeledStepsToBeRectified s \<and> invalidTarget s t}"

fun isGlobalWarning :: "warning \<Rightarrow> bool" where
  "isGlobalWarning (GlobalWarning r m) = True"
| "isGlobalWarning (AttrWarning n a r m) = False"

definition globalWarnings :: "spec \<Rightarrow> warning list" where
  "globalWarnings s = filter isGlobalWarning (warnings s)"

text \<open>
  A set \<open>D\<close> of declarations that can never be resolved: each target is the id of a
  step that waits to be rectified, and every replacement algorithm containing a step
  with such an id is itself in \<open>D\<close> or can only be reported. Two algorithms that replace
  a step of each other form such a set, and so does an algorithm whose target lies in an
  algorithm with an invalid target.
\<close>

definition stuck :: "spec \<Rightarrow> (element \<times> string) set \<Rightarrow> bool" where
  "stuck s D \<longleftrightarrow>
     D \<subseteq> set (replacementAlgorithms s) \<and>
     snd ` D \<subseteq> labeledStepsToBeRectified s \<and>
     (\<forall>d\<in>set (replacementAlgorithms s).
        (\<exists>a\<in>stepsOf s (fst d). eid (entries s a) \<in> snd ` D) \<longrightarrow>
        d \<in> D \<or> (snd d \<notin> labeledStepsToBeRectified s \<and> invalidTarget s (snd d)))"

text \<open>An algorithm none of whose steps carries an id of \<open>tg\<close>.\<close>

definition safe :: "string set \<Rightarrow> spec \<Rightarrow> element \<Rightarrow> bool" where
  "safe tg s x \<longleftrightarrow> (\<forall>a\<in>stepsOf s x. eid (entries s a) \<notin> tg)"

definition guarded :: "string set \<Rightarrow> spec \<Rightarrow> bool" where
  "guarded tg s \<longleftrightarrow> (\<forall>p\<in>set (pending s). fst p \<notin> tg \<longrightarrow> (\<forall>x\<in>set (snd p). safe tg s x))"

definition keeps :: "string set \<Rightarrow> spec \<Rightarrow> spec \<Rightarrow> bool" where
  "keeps tg s s' \<longleftrightarrow>
     (\<forall>k\<in>tg. map_of (pending s') k = map_of (pending s) k) \<and>
     labeledStepsToBeRectified s \<inter> tg \<subseteq> labeledStepsToBeRectified s'"

subsection \<open>Example documents for the resolver\<close>

text \<open>
  One replacement algorithm (element 0) that replaces step \<open>s1\<close>, whose path is
  \<open>[2, 1]\<close>, and contains two labelled steps \<open>a\<close> and \<open>b\<close> with the given local paths.
\<close>

definition noEntry :: biblioEntry where
  "noEntry = \<lparr>etype = ''clause'', eid = '''', stepNumbers = []\<rparr>"



text \<open>
  Two replacement algorithms (elements 0 and 1): the first contains step \<open>a1\<close> and
  replaces step \<open>b1\<close>, the second contains step \<open>b1\<close> and replaces step \<open>a1\<close>.
\<close>

definition cycleExample :: spec where
  "cycleExample =
     \<lparr>entries = (\<lambda>_. noEntry)
        (0 := \<lparr>etype = ''step'', eid = ''a1'', stepNumbers = [1]\<rparr>,
         1 := \<lparr>etype = ''step'', eid = ''b1'', stepNumbers = [1]\<rparr>),
      byId = [''a1'' \<mapsto> 0, ''b1'' \<mapsto> 1],
      replacementAlgorithmToContainedLabeledStepEntries = [0 \<mapsto> [0], 1 \<mapsto> [1]],
      labeledStepsToBeRectified = {''a1'', ''b1''},
      replacementAlgorithms = [(0, ''b1''), (1, ''a1'')],
      rootLists = [0 \<mapsto> \<lparr>start = None, classList = []\<rparr>,
                   1 \<mapsto> \<lparr>start = None, classList = []\<rparr>],
      warnings = [],
      pending = []\<rparr>"

text \<open>
  One replacement algorithm (element 0) whose target \<open>nope\<close> is unknown to the biblio,
  followed by one (element 1) that replaces the known step \<open>s1\<close>.
\<close>

definition invalidExample :: spec where
  "invalidExample =
     \<lparr>entries = (\<lambda>_. noEntry)
        (0 := \<lparr>etype = ''step'', eid = ''s1'', stepNumbers = [3]\<rparr>,
         1 := \<lparr>etype = ''step'', eid = ''a'', stepNumbers = [1]\<rparr>,
         2 := \<lparr>etype = ''step'', eid = ''b'', stepNumbers = [1]\<rparr>),
      byId = [''s1'' \<mapsto> 0, ''a'' \<mapsto> 1, ''b'' \<mapsto> 2],
      replacementAlgorithmToContainedLabeledStepEntries = [0 \<mapsto> [1], 1 \<mapsto> [2]],
      labeledStepsToBeRectified = {''a'', ''b''},
      replacementAlgorithms = [(0, ''nope''), (1, ''s1'')],
      rootLists = [0 \<mapsto> \<lparr>start = None, classList = []\<rparr>,
                   1 \<mapsto> \<lparr>start = None, classList = []\<rparr>],
      warnings = [],
      pending = []\<rparr>"

section \<open>The build process (Spec.build)\<close>

text \<open>
  \<open>build\<close> runs its phases one after the other. What a phase does to the document is the
  business of the phase; here a phase that is begun is recorded in a trace, so that the
  order of the phases and the points where the cancellation token is looked at are those
  of the source. Collaborators (fetching, linting, the grammar converter) are taken to
  return normally.
\<close>

datatype phase =
  LoadECMA262Biblio
  | LoadBiblios
  | LoadImports
  | BuildBoilerplate
  | Lint
  | Walk
  | SetReplacementAlgorithmOffsets
  | Autolink
  | LinkXrefs
  | LinkNtRefs
  | LinkProdRefs
  | BuildReferenceGraph
  | HighlightCode
  | SetCharset
  | SetFirstH1Class
  | BuildSpecWrapper
  | BuildToc
  | BuildMenu
  | BuildAssets

datatype buildError = CancelError | LintWithoutSource

text \<open>
  The options \<open>build\<close> branches on, whether the source text is available, and the
  cancellation token: \<open>cancellationRequested ph\<close> tells whether cancellation has been
  requested by the time phase \<open>ph\<close> begins.
\<close>

record buildInput =
  ecma262Biblio :: bool
  lintSpec :: bool
  sourceAvailable :: bool
  toc :: bool
  oldToc :: bool
  cancellationRequested :: "phase \<Rightarrow> bool"

text \<open>
  The phases begun so far, and the exception that ended the run, if any. \<open>build\<close>
  returns the \<open>Spec\<close> only when nothing was thrown.
\<close>

record buildState =
  trace :: "phase list"
  thrown :: "buildError option"

definition begin_phase :: "phase \<Rightarrow> buildState \<Rightarrow> buildState" where
  "begin_phase ph s = s\<lparr>trace := trace s @ [ph]\<rparr>"

text \<open>\<open>this.cancellationToken.throwIfCancellationRequested()\<close> at the start of phase \<open>ph\<close>.\<close>

definition throwIfCancellationRequested :: "buildInput \<Rightarrow> phase \<Rightarrow> buildState \<Rightarrow> buildState" where
  "throwIfCancellationRequested inp ph s =
     (if cancellationRequested inp ph then s\<lparr>thrown := Some CancelError\<rparr> else s)"

text \<open>Sequencing: once something is thrown, nothing more is run.\<close>

definition thenDo :: "buildState \<Rightarrow> (buildState \<Rightarrow> buildState) \<Rightarrow> buildState" where
  "thenDo s f = (case thrown s of None \<Rightarrow> f s | Some e \<Rightarrow> s)"

definition loadECMA262Biblio :: "buildInput \<Rightarrow> buildState \<Rightarrow> buildState" where
  "loadECMA262Biblio inp s =
     thenDo (throwIfCancellationRequested inp LoadECMA262Biblio s) (begin_phase LoadECMA262Biblio)"

definition loadBiblios :: "buildInput \<Rightarrow> buildState \<Rightarrow> buildState" where
  "loadBiblios inp s =
     thenDo (throwIfCancellationRequested inp LoadBiblios s) (begin_phase LoadBiblios)"

definition loadImports :: "buildInput \<Rightarrow> buildState \<Rightarrow> buildState" where
  "loadImports inp s = begin_phase LoadImports s"

definition buildBoilerplate :: "buildInput \<Rightarrow> buildState \<Rightarrow> buildState" where
  "buildBoilerplate inp s =
     thenDo (throwIfCancellationRequested inp BuildBoilerplate s) (begin_phase BuildBoilerplate)"

definition lintStep :: "buildInput \<Rightarrow> buildState \<Rightarrow> buildState" where
  "lintStep inp s =
     (if lintSpec inp then
        (if \<not> sourceAvailable inp then s\<lparr>thrown := Some LintWithoutSource\<rparr>
         else begin_phase Lint s)
      else s)"

definition tocStep :: "buildInput \<Rightarrow> buildState \<Rightarrow> buildState" where
  "tocStep inp s =
     (if toc inp then (if oldToc inp then begin_phase BuildToc s else begin_phase BuildMenu s)
      else s)"

definition build :: "buildInput \<Rightarrow> buildState" where
  "build inp =
     foldl thenDo \<lparr>trace = [], thrown = None\<rparr>
       [(\<lambda>s. if ecma262Biblio inp then loadECMA262Biblio inp s else s),
        loadBiblios inp,
        loadImports inp,
        buildBoilerplate inp,
        lintStep inp,
        begin_phase Walk,
        begin_phase SetReplacementAlgorithmOffsets,
        begin_phase Autolink,
        begin_phase LinkXrefs,
        begin_phase LinkNtRefs,
        begin_phase LinkProdRefs,
        begin_phase BuildReferenceGraph,
        begin_phase HighlightCode,
        begin_phase SetCharset,
        begin_phase SetFirstH1Class,
        begin_phase BuildSpecWrapper,
        tocStep inp,
        begin_phase BuildAssets]"

text \<open>
  \<open>build\<close> in two parts: the state after the phases that come before the walk, and the
  phases from the walk on.
\<close>

definition beforeWalk :: "buildInput \<Rightarrow> buildState" where
  "beforeWalk inp =
     foldl thenDo \<lparr>trace = [], thrown = None\<rparr>
       [(\<lambda>s. if ecma262Biblio inp then loadECMA262Biblio inp s else s),
        loadBiblios inp,
        loadImports inp,
        buildBoilerplate inp,
        lintStep inp]"

definition afterWalk :: "buildInput \<Rightarrow> (buildState \<Rightarrow> buildState) list" where
  "afterWalk inp =
       [begin_phase Walk,
        begin_phase SetReplacementAlgorithmOffsets,
        begin_phase Autolink,
        begin_phase LinkXrefs,
        begin_phase LinkNtRefs,
        begin_phase LinkProdRefs,
        begin_phase BuildReferenceGraph,
        begin_phase HighlightCode,
        begin_phase SetCharset,
        begin_phase SetFirstH1Class,
        begin_phase BuildSpecWrapper,
        tocStep inp,
        begin_phase BuildAssets]"

text \<open>\<open>precedes a b xs\<close>: \<open>a\<close> occurs in \<open>xs\<close> and \<open>b\<close> occurs after its first occurrence.\<close>

definition precedes :: "'a \<Rightarrow> 'a \<Rightarrow> 'a list \<Rightarrow> bool" where
  "precedes a b xs \<longleftrightarrow> b \<in> set (drop 1 (dropWhile (\<lambda>x. x \<noteq> a) xs))"


text \<open>A run with the default options in which cancellation is never requested.\<close>

definition neverCancelled :: buildInput where
  "neverCancelled =
     \<lparr>ecma262Biblio = True, lintSpec = False, sourceAvailable = True, toc = True,
      oldToc = False, cancellationRequested = (\<lambda>ph. False)\<rparr>"


section \<open>Content extraction of the grammar builder (Grammar.enter)\<close>

subsection \<open>The regular expression \<open>endTagRe\<close>\<close>

text \<open>
  A regular expression is embedded as a backtracking matcher: given a position (the
  character before it, if any, and the rest of the input) it returns the positions after
  each way the expression can match there, in the order in which a backtracking engine
  tries them. Strings are strings of 8-bit characters; for these the flag \<open>i\<close> only
  identifies an ASCII letter with its other case.
\<close>

type_synonym pos = "char option \<times> string"
type_synonym matcher = "pos \<Rightarrow> pos list"

definition canonicalize :: "char \<Rightarrow> char" where
  "canonicalize c =
     (case map_of (zip ''abcdefghijklmnopqrstuvwxyz'' ''ABCDEFGHIJKLMNOPQRSTUVWXYZ'') c of
        None \<Rightarrow> c
      | Some u \<Rightarrow> u)"

text \<open>\<open>\w\<close> and \<open>\d\<close>.\<close>

definition isWordChar :: "char \<Rightarrow> bool" where
  "isWordChar c \<longleftrightarrow>
     c \<in> set ''abcdefghijklmnopqrstuvwxyzABCDEFGHIJKLMNOPQRSTUVWXYZ0123456789_''"

definition isDigit :: "char \<Rightarrow> bool" where
  "isDigit c \<longleftrightarrow> c \<in> set ''0123456789''"

text \<open>A literal character, compared as the flag \<open>i\<close> demands.\<close>

definition lit :: "char \<Rightarrow> matcher" where
  "lit c p =
     (case snd p of
        [] \<Rightarrow> []
      | x # r \<Rightarrow> if canonicalize x = canonicalize c then [(Some x, r)] else [])"

text \<open>A character class.\<close>

definition cls :: "(char \<Rightarrow> bool) \<Rightarrow> matcher" where
  "cls pr p = (case snd p of [] \<Rightarrow> [] | x # r \<Rightarrow> if pr x then [(Some x, r)] else [])"

definition seq :: "matcher \<Rightarrow> matcher \<Rightarrow> matcher" where
  "seq m1 m2 p = concat (map m2 (m1 p))"

definition alt :: "matcher \<Rightarrow> matcher \<Rightarrow> matcher" where
  "alt m1 m2 p = m1 p @ m2 p"

text \<open>\<open>m?\<close>, greedy.\<close>

definition opt :: "matcher \<Rightarrow> matcher" where
  "opt m p = m p @ [p]"

text \<open>\<open>[class]*\<close>, greedy: the longest run first, then the shorter ones.\<close>

fun many :: "(char \<Rightarrow> bool) \<Rightarrow> matcher" where
  "many pr (pv, []) = [(pv, [])]"
| "many pr (pv, x # r) = (if pr x then many pr (Some x, r) @ [(pv, x # r)] else [(pv, x # r)])"

text \<open>\<open>[class]+\<close>.\<close>

definition many1 :: "(char \<Rightarrow> bool) \<Rightarrow> matcher" where
  "many1 pr p = (case snd p of [] \<Rightarrow> [] | x # r \<Rightarrow> if pr x then many pr (Some x, r) else [])"

text \<open>\<open>\b\<close>: exactly one of the characters before and after the position is a word character.\<close>

definition boundary :: matcher where
  "boundary p =
     (if (case fst p of None \<Rightarrow> False | Some c \<Rightarrow> isWordChar c) \<noteq>
         (case snd p of [] \<Rightarrow> False | c # r \<Rightarrow> isWordChar c)
      then [p] else [])"

text \<open>A literal string.\<close>

definition str :: "string \<Rightarrow> matcher" where
  "str cs = foldr (\<lambda>c m. seq (lit c) m) cs (\<lambda>p. [p])"

text \<open>
  \<^verbatim>\<open>/<\/?(emu-\w+|h?\d|p|ul|table|pre|code)\b[^>]*>/i\<close>, with a name for the group
  and for what follows it.
\<close>

definition tagNameGroup :: matcher where
  "tagNameGroup =
     alt (seq (str ''emu-'') (many1 isWordChar))
    (alt (seq (opt (lit CHR ''h'')) (cls isDigit))
    (alt (str ''p'')
    (alt (str ''ul'')
    (alt (str ''table'')
    (alt (str ''pre'')
         (str ''code''))))))"

definition tagTail :: matcher where
  "tagTail = seq boundary (seq (many (\<lambda>c. c \<noteq> CHR ''>'')) (lit CHR ''>''))"

definition endTagRe :: matcher where
  "endTagRe = seq (lit CHR ''<'') (seq (opt (lit CHR ''/'')) (seq tagNameGroup tagTail))"

text \<open>
  \<open>RegExp.prototype.exec\<close>: the index of the leftmost position at which the expression
  matches. \<open>execFrom m pv s i\<close> searches the rest \<open>s\<close> of the input, which begins at
  index \<open>i\<close> after the character \<open>pv\<close>.
\<close>

fun execFrom :: "matcher \<Rightarrow> char option \<Rightarrow> string \<Rightarrow> nat \<Rightarrow> nat option" where
  "execFrom m pv [] i = (if m (pv, []) \<noteq> [] then Some i else None)"
| "execFrom m pv (x # r) i =
     (if m (pv, x # r) \<noteq> [] then Some i else execFrom m (Some x) r (Suc i))"

definition exec :: "matcher \<Rightarrow> string \<Rightarrow> nat option" where
  "exec m s = execFrom m None s 0"

text \<open>
  \<open>exec\<close> of an expression with the flag \<open>g\<close> whose \<open>lastIndex\<close> has been set: the
  search starts there, and fails when \<open>lastIndex\<close> is beyond the end.
\<close>

definition execGlobal :: "matcher \<Rightarrow> nat \<Rightarrow> string \<Rightarrow> nat option" where
  "execGlobal m lastIndex s =
     (if lastIndex > length s then None
      else execFrom m (if lastIndex = 0 then None else Some (s ! (lastIndex - 1)))
             (drop lastIndex s) lastIndex)"

subsection \<open>\<open>Grammar.enter\<close>\<close>

text \<open>\<open>String.prototype.slice(start, end)\<close> for offsets that are not negative.\<close>

definition slice :: "string \<Rightarrow> nat \<Rightarrow> nat \<Rightarrow> string" where
  "slice s from to = take (to - from) (drop from s)"

text \<open>\<^verbatim>\<open>.replace(/&gt;/g, '>')\<close>\<close>

fun replaceGt :: "string \<Rightarrow> string" where
  "replaceGt [] = []"
| "replaceGt (c # cs) =
     (if take 4 (c # cs) = ''&gt;'' then CHR ''>'' # replaceGt (drop 3 cs)
      else c # replaceGt cs)"

text \<open>
  What \<open>spec.locate(node)\<close> returns, as far as \<open>enter\<close> reads it: the source text, the
  locations of the start and end tag when the parser found them, and the end offset of
  the element.
\<close>

record tagLocation =
  tagStartOffset :: nat
  tagEndOffset :: nat

record elementLocation =
  source :: string
  startTag :: "tagLocation option"
  endTag :: "tagLocation option"
  endOffset :: nat

record grammarNode =
  grammarkdownOut :: "string option"
  location :: "elementLocation option"
  innerHTML :: string

text \<open>The check for a possible end tag in the content.\<close>

definition truncateAtEndTag :: "string \<Rightarrow> string" where
  "truncateAtEndTag content =
     (case exec endTagRe content of None \<Rightarrow> content | Some i \<Rightarrow> slice content 0 i)"

text \<open>The content and the flag \<open>possiblyMalformed\<close> after the first \<open>if\<close> of \<open>enter\<close>.\<close>

definition rawContent :: "grammarNode \<Rightarrow> string \<times> bool" where
  "rawContent node =
     (case location node of
        Some loc \<Rightarrow>
          (case (startTag loc, endTag loc) of
             (Some st, Some et) \<Rightarrow> (slice (source loc) (tagEndOffset st) (tagStartOffset et), True)
           | _ \<Rightarrow>
               (slice (source loc) (endOffset loc)
                  (case execGlobal endTagRe (endOffset loc) (source loc) of
                     Some i \<Rightarrow> i
                   | None \<Rightarrow> length (source loc)),
                False))
      | None \<Rightarrow> (replaceGt (innerHTML node), True))"

text \<open>The content handed to the grammar converter.\<close>

definition grammarContent :: "grammarNode \<Rightarrow> string" where
  "grammarContent node =
     (case rawContent node of
        (content, possiblyMalformed) \<Rightarrow>
          if possiblyMalformed then truncateAtEndTag content else content)"

text \<open>
  \<open>enter\<close>, with the converter \<open>GrammarFile.convert\<close> as a parameter: a node that was
  converted during linting takes that output.
\<close>

definition grammarEnter :: "(string \<Rightarrow> string) \<Rightarrow> grammarNode \<Rightarrow> grammarNode" where
  "grammarEnter convert node =
     (case grammarkdownOut node of
        Some out \<Rightarrow> node\<lparr>innerHTML := out\<rparr>
      | None \<Rightarrow> node\<lparr>innerHTML := convert (grammarContent node)\<rparr>)"

subsection \<open>What a match of \<open>endTagRe\<close> looks like\<close>






section \<open>The reference graph (Spec.buildReferenceGraph)\<close>

text \<open>
  The part of a biblio entry this pass reads and writes. An \<open>id\<close> or \<open>refId\<close> that is
  missing is \<open>None\<close>; the tests \<open>!entry.id\<close> and \<open>entry.refId\<close> are tests for a string
  that is present and not empty.
\<close>

record refEntry =
  namespace :: string
  entryId :: "string option"
  refId :: "string option"
  referencingIds :: "string list"

















subsection \<open>Notions used to state the properties of the reference graph\<close>











section \<open>The tree walk (walk, H1.enter)\<close>

subsection \<open>Nodes and the traversal context\<close>

text \<open>
  A text node with its content, or an element with its node name, its \<open>id\<close> attribute
  and its children. The first component is the identity of the node. The tree is the
  document as the walk meets it: the children of an element are the ones it has once the
  \<open>enter\<close> hook of its builder has run, and the nodes that emphasis expansion splices in
  after a text node are part of the tree. The span children inserted for an \<open>oldids\<close>
  attribute carry no text and are left out.
\<close>

datatype node =
  TextNode nat string
  | ElementNode nat string "string option" "node list"

fun nodeRef :: "node \<Rightarrow> nat" where
  "nodeRef (TextNode n content) = n"
| "nodeRef (ElementNode n name idAttribute children) = n"

text \<open>An entry of \<open>spec._textNodes\<close>; the clause is \<open>None\<close> when it is the spec itself.\<close>

record textNodeContext =
  textNode :: nat
  textClause :: "nat option"
  textInAlg :: bool
  textCurrentId :: "string option"

text \<open>
  The \<open>Context\<close> that \<open>walk\<close> threads through the traversal, together with what the walk
  and the builders of this file reach through \<open>context.spec\<close> and the clause stack: the
  lists \<open>_textNodes\<close> by namespace (a namespace without a list has the empty list), the
  calls of \<open>emdTextNode\<close>, the namespace of the spec, and, for the clause objects (named
  by their elements), their namespaces and headers.
\<close>

record walkContext =
  contextNode :: nat
  clauseStack :: "nat list"
  tagStack :: "nat list"
  inNoAutolink :: bool
  inAlg :: bool
  inNoEmd :: bool
  startEmd :: "nat option"
  currentId :: "string option"
  textNodes :: "string \<Rightarrow> textNodeContext list"
  emdTextNodeCalls :: "nat list"
  specNamespace :: string
  clauseNamespace :: "nat \<Rightarrow> string"
  header :: "nat \<rightharpoonup> nat"

text \<open>A builder, as far as the walk uses it: its \<open>enter\<close> and \<open>exit\<close> hooks.\<close>

record visitor =
  visitorEnter :: "walkContext \<Rightarrow> walkContext"
  visitorExit :: "walkContext \<Rightarrow> walkContext"

text \<open>
  What \<open>walk\<close> takes from other modules: the set \<open>NO_CLAUSE_AUTOLINK\<close> of the autolinker
  and the map from node names to builders.
\<close>

record env =
  noClauseAutolink :: "string set"
  visitorMap :: "string \<rightharpoonup> visitor"

definition NO_EMD :: "string set" where
  "NO_EMD = {''PRE'', ''CODE'', ''EMU-PRODUCTION'', ''EMU-ALG'', ''EMU-GRAMMAR'', ''EMU-EQN''}"

text \<open>The characters \<open>trim\<close> removes, among the 8-bit characters.\<close>

definition isWhiteSpace :: "char \<Rightarrow> bool" where
  "isWhiteSpace c \<longleftrightarrow>
     c \<in> {CHR 0x09, CHR 0x0A, CHR 0x0B, CHR 0x0C, CHR 0x0D, CHR '' '', CHR 0xA0}"

text \<open>\<open>textContent.trim().length === 0\<close>\<close>

definition isBlank :: "string \<Rightarrow> bool" where
  "isBlank content \<longleftrightarrow> list_all isWhiteSpace content"

subsection \<open>\<open>walk\<close>\<close>

text \<open>The first statements of \<open>walk\<close>, common to text nodes and elements.\<close>

definition arrive :: "nat \<Rightarrow> walkContext \<Rightarrow> walkContext" where
  "arrive n c =
     (let c1 = c\<lparr>contextNode := n, tagStack := tagStack c @ [n]\<rparr>
      in if startEmd c1 = Some n then c1\<lparr>startEmd := None, inNoEmd := False\<rparr> else c1)"

text \<open>
  The branch for a text node that is not blank. \<open>following\<close> is the node the loop
  \<open>while (node && !node.nextSibling) node = node.parentNode\<close> ends at, taken one sibling
  further: the next sibling of the nearest ancestor-or-self that has one.
\<close>

definition expandEmphasis :: "nat option \<Rightarrow> walkContext \<Rightarrow> walkContext" where
  "expandEmphasis following c =
     (if \<not> inNoEmd c then
        c\<lparr>inNoEmd := True,
          startEmd := (case following of Some n \<Rightarrow> Some n | None \<Rightarrow> startEmd c),
          emdTextNodeCalls := emdTextNodeCalls c @ [contextNode c]\<rparr>
      else c)"

definition recordTextNode :: "walkContext \<Rightarrow> walkContext" where
  "recordTextNode c =
     (if \<not> inNoAutolink c then
        (let clause = (if clauseStack c = [] then None else Some (last (clauseStack c)));
             namespace = (case clause of None \<Rightarrow> specNamespace c
                          | Some cl \<Rightarrow> clauseNamespace c cl)
         in c\<lparr>textNodes := (textNodes c)
               (namespace := textNodes c namespace @
                  [\<lparr>textNode = contextNode c, textClause = clause, textInAlg = inAlg c,
                    textCurrentId = currentId c\<rparr>])\<rparr>)
      else c)"

text \<open>
  \<open>walk\<close> on the node the walker stands on, and the loop over its children. \<open>pop\<close>
  removes the last entry of the tag stack, whatever it is: the branch for text nodes
  returns without popping.
\<close>

fun walk :: "env \<Rightarrow> nat option \<Rightarrow> node \<Rightarrow> walkContext \<Rightarrow> walkContext"
  and walkChildren :: "env \<Rightarrow> nat option \<Rightarrow> node list \<Rightarrow> walkContext \<Rightarrow> walkContext"
where
  "walk e following (TextNode n content) c =
     (let c1 = arrive n c
      in if isBlank content then c1
         else recordTextNode (expandEmphasis following c1))"
| "walk e following (ElementNode n name idAttribute children) c =
     (let c1 = arrive n c;
          parentId = currentId c1;
          c2 = (case idAttribute of None \<Rightarrow> c1 | Some v \<Rightarrow> c1\<lparr>currentId := Some v\<rparr>);
          changedInNoAutolink = (name \<in> noClauseAutolink e \<and> \<not> inNoAutolink c2);
          c3 = (if changedInNoAutolink then c2\<lparr>inNoAutolink := True\<rparr> else c2);
          changedInNoEmd = (name \<in> NO_EMD \<and> \<not> inNoEmd c3);
          c4 = (if changedInNoEmd then c3\<lparr>inNoEmd := True\<rparr> else c3);
          c5 = (case visitorMap e name of None \<Rightarrow> c4 | Some v \<Rightarrow> visitorEnter v c4);
          c6 = (if children = [] then c5
                else (walkChildren e following children c5)\<lparr>contextNode := n\<rparr>);
          c7 = (case visitorMap e name of None \<Rightarrow> c6 | Some v \<Rightarrow> visitorExit v c6);
          c8 = (if changedInNoAutolink then c7\<lparr>inNoAutolink := False\<rparr> else c7);
          c9 = (if changedInNoEmd then c8\<lparr>inNoEmd := False\<rparr> else c8)
      in c9\<lparr>currentId := parentId, tagStack := butlast (tagStack c9)\<rparr>)"
| "walkChildren e following [] c = c"
| "walkChildren e following (child # rest) c =
     walkChildren e following rest
       (walk e (case rest of [] \<Rightarrow> following | next # others \<Rightarrow> Some (nodeRef next)) child c)"

subsection \<open>The builders \<open>H1\<close> and \<open>Clause\<close>\<close>

text \<open>\<open>H1.enter\<close>; \<open>H1\<close> has no \<open>exit\<close> of its own.\<close>

definition H1_enter :: "walkContext \<Rightarrow> walkContext" where
  "H1_enter c =
     (if clauseStack c = [] then c
      else
        (let clause = last (clauseStack c)
         in if header c clause = None then c\<lparr>header := (header c)(clause \<mapsto> contextNode c)\<rparr>
            else c))"

definition H1 :: visitor where
  "H1 = \<lparr>visitorEnter = H1_enter, visitorExit = (\<lambda>c. c)\<rparr>"

text \<open>
  Modelled from the spec: the clause builder, which \<open>Spec.ts\<close> imports from \<open>Clause.ts\<close>.
  On entering a clause element it makes a clause object, which has no header yet, and
  pushes it onto the clause stack; on leaving the element it pops the stack.
\<close>

definition Clause_enter :: "walkContext \<Rightarrow> walkContext" where
  "Clause_enter c =
     c\<lparr>clauseStack := clauseStack c @ [contextNode c],
       header := (header c)(contextNode c := None)\<rparr>"

definition Clause_exit :: "walkContext \<Rightarrow> walkContext" where
  "Clause_exit c = c\<lparr>clauseStack := butlast (clauseStack c)\<rparr>"

definition Clause :: visitor where
  "Clause = \<lparr>visitorEnter = Clause_enter, visitorExit = Clause_exit\<rparr>"

subsection \<open>Notions used to state the properties of the walk\<close>



text \<open>A hook that leaves the clause stack and the headers of the clauses alone.\<close>

definition keepsClauses :: "(walkContext \<Rightarrow> walkContext) \<Rightarrow> bool" where
  "keepsClauses h \<longleftrightarrow> (\<forall>c. clauseStack (h c) = clauseStack c \<and> header (h c) = header c)"

text \<open>
  The builders as far as headers go: \<open>H1\<close> is the builder of the \<open>H1\<close> elements, the
  clause builder is the builder of the elements named in \<open>clauseElements\<close>, and the hooks
  of the other builders leave the clause stack and the headers alone.
\<close>

definition headingEnv :: "string list \<Rightarrow> env \<Rightarrow> bool" where
  "headingEnv clauseElements e \<longleftrightarrow>
     visitorMap e ''H1'' = Some H1 \<and> ''H1'' \<notin> set clauseElements \<and>
     (\<forall>name. name \<in> set clauseElements \<longrightarrow> visitorMap e name = Some Clause) \<and>
     (\<forall>name v. name \<noteq> ''H1'' \<and> name \<notin> set clauseElements \<and> visitorMap e name = Some v \<longrightarrow>
        keepsClauses (visitorEnter v) \<and> keepsClauses (visitorExit v))"

text \<open>
  The first \<open>H1\<close> element of a subtree in document order, the subtrees of clause elements
  passed over; and the same for a list of siblings.
\<close>

fun firstHeading :: "string list \<Rightarrow> node \<Rightarrow> nat option"
  and firstHeadings :: "string list \<Rightarrow> node list \<Rightarrow> nat option"
where
  "firstHeading clauseElements (TextNode n content) = None"
| "firstHeading clauseElements (ElementNode n name idAttribute children) =
     (if name = ''H1'' then Some n
      else if name \<in> set clauseElements then None
      else firstHeadings clauseElements children)"
| "firstHeadings clauseElements [] = None"
| "firstHeadings clauseElements (child # rest) =
     (case firstHeading clauseElements child of
        Some h \<Rightarrow> Some h
      | None \<Rightarrow> firstHeadings clauseElements rest)"

text \<open>
  The header in the words of the specification: the first \<open>H1\<close> element met among the
  children themselves before any nested clause element is met.
\<close>

fun specHeader :: "string list \<Rightarrow> node list \<Rightarrow> nat option" where
  "specHeader clauseElements [] = None"
| "specHeader clauseElements (TextNode n content # rest) = specHeader clauseElements rest"
| "specHeader clauseElements (ElementNode n name idAttribute children # rest) =
     (if name = ''H1'' then Some n
      else if name \<in> set clauseElements then None
      else specHeader clauseElements rest)"

fun childrenOf :: "node \<Rightarrow> node list" where
  "childrenOf (TextNode n content) = []"
| "childrenOf (ElementNode n name idAttribute children) = children"

text \<open>The clause elements of a subtree.\<close>

fun clauseRefs :: "string list \<Rightarrow> node \<Rightarrow> nat set"
  and clauseRefsOf :: "string list \<Rightarrow> node list \<Rightarrow> nat set"
where
  "clauseRefs clauseElements (TextNode n content) = {}"
| "clauseRefs clauseElements (ElementNode n name idAttribute children) =
     (if name \<in> set clauseElements then {n} else {}) \<union> clauseRefsOf clauseElements children"
| "clauseRefsOf clauseElements [] = {}"
| "clauseRefsOf clauseElements (child # rest) =
     clauseRefs clauseElements child \<union> clauseRefsOf clauseElements rest"



subsection \<open>Example documents\<close>

text \<open>
  The context \<open>build\<close> starts the walk with, for a spec with namespace \<open>ns\<close> and nothing
  recorded yet.
\<close>

definition initialContext :: "string \<Rightarrow> walkContext" where
  "initialContext ns =
     \<lparr>contextNode = 0, clauseStack = [], tagStack = [], inNoAutolink = False, inAlg = False,
      inNoEmd = False, startEmd = None, currentId = None, textNodes = (\<lambda>k. []),
      emdTextNodeCalls = [], specNamespace = ns, clauseNamespace = (\<lambda>cl. ns), header = Map.empty\<rparr>"

text \<open>
  An environment with the two builders above, clauses being the \<open>EMU-CLAUSE\<close> elements,
  and links and cross-references closed to autolinking.
\<close>

definition exampleEnv :: env where
  "exampleEnv =
     \<lparr>noClauseAutolink = {''A'', ''EMU-XREF''},
      visitorMap = [''H1'' \<mapsto> H1, ''EMU-CLAUSE'' \<mapsto> Clause]\<rparr>"




text \<open>
  A clause whose only \<open>H1\<close> is inside a \<open>div\<close>, and a clause whose only \<open>H1\<close> comes after
  a nested clause:

  \<open><emu-clause id="a"><div><h1>A</h1></div></emu-clause>\<close>

  \<open><emu-clause id="b"><emu-clause id="c"><h1>C</h1></emu-clause><h1>B</h1></emu-clause>\<close>
\<close>

definition wrappedHeadingExample :: node where
  "wrappedHeadingExample =
     ElementNode 1 ''EMU-CLAUSE'' (Some ''a'')
       [ElementNode 2 ''DIV'' None [ElementNode 3 ''H1'' None [TextNode 4 ''A'']]]"

definition lateHeadingExample :: node where
  "lateHeadingExample =
     ElementNode 1 ''EMU-CLAUSE'' (Some ''b'')
       [ElementNode 2 ''EMU-CLAUSE'' (Some ''c'')
          [ElementNode 3 ''H1'' None [TextNode 4 ''C'']],
        ElementNode 5 ''H1'' None [TextNode 6 ''B'']]"

text \<open>
  A clause with two headings, text of its own and a nested clause:

  \<open><emu-clause id="a"><h1>A</h1>x<emu-clause id="b"><h1>B</h1></emu-clause><h1>C</h1></emu-clause>\<close>
\<close>

definition clauseExample :: node where
  "clauseExample =
     ElementNode 1 ''EMU-CLAUSE'' (Some ''a'')
       [ElementNode 2 ''H1'' None [TextNode 3 ''A''],
        TextNode 4 ''x'',
        ElementNode 5 ''EMU-CLAUSE'' (Some ''b'')
          [ElementNode 6 ''H1'' None [TextNode 7 ''B'']],
        ElementNode 8 ''H1'' None [TextNode 9 ''C'']]"

section \<open>Properties of the replacement-step resolver\<close>

subsection \<open>Bookkeeping of \<open>pending\<close>\<close>

lemma distinct_concat_filter:
  "distinct (concat (map snd xs)) \<Longrightarrow> distinct (concat (map snd (filter P xs)))"
  by (induction xs) auto

lemma shrinks_refl: "shrinks s s"
proof -
  have "pending s = filter (\<lambda>_. True) (pending s)" by simp
  then show ?thesis unfolding shrinks_def by blast
qed

lemma shrinks_trans: "shrinks s s1 \<Longrightarrow> shrinks s1 s2 \<Longrightarrow> shrinks s s2"
  unfolding shrinks_def by (metis filter_filter)

lemma shrinks_pendingElems: "shrinks s s' \<Longrightarrow> pendingElems s' \<subseteq> pendingElems s"
  by (auto simp: shrinks_def pendingElems_def pendingList_def)

lemma shrinks_distinct:
  "shrinks s s' \<Longrightarrow> distinct (pendingList s) \<Longrightarrow> distinct (pendingList s')"
  by (auto simp: shrinks_def pendingList_def distinct_concat_filter)

lemma shrinks_length: "shrinks s s' \<Longrightarrow> length (pending s') \<le> length (pending s)"
  by (auto simp: shrinks_def)

lemma unchanged_refl: "unchanged T s s"
  by (simp add: unchanged_def)

lemma unchanged_stepsOf: "unchanged T s s' \<Longrightarrow> stepsOf s' = stepsOf s"
  by (auto simp: unchanged_def stepsOf_def fun_eq_iff)

lemma unchanged_mono: "unchanged T s s' \<Longrightarrow> T \<subseteq> T' \<Longrightarrow> unchanged T' s s'"
  unfolding unchanged_def by (intro conjI; (auto)[1]; blast)

lemma unchanged_trans: "unchanged T s s1 \<Longrightarrow> unchanged T s1 s2 \<Longrightarrow> unchanged T s s2"
  unfolding unchanged_def stepsOf_def by (intro conjI; (auto)[1]; fastforce)

lemma unchanged_trans2:
  "unchanged T1 s s1 \<Longrightarrow> unchanged T2 s1 s2 \<Longrightarrow> T1 \<subseteq> T \<Longrightarrow> T2 \<subseteq> T \<Longrightarrow> unchanged T s s2"
  by (blast intro: unchanged_trans unchanged_mono)

lemma unchanged_setStart:
  "rootLists s x = Some rl \<Longrightarrow>
   unchanged {x} s (s\<lparr>rootLists := (rootLists s)(x \<mapsto> v)\<rparr>)"
  by (auto simp: unchanged_def stepsOf_def)

lemma shrinks_setStart: "shrinks s (s\<lparr>rootLists := r\<rparr>)"
  using shrinks_refl[of s] by (simp add: shrinks_def)

lemma unchanged_rectifyEntry:
  "a \<in> stepsOf s x \<Longrightarrow> unchanged {x} s (rectifyEntry nums a s)"
  by (auto simp: unchanged_def rectifyEntry_def)

lemma shrinks_rectifyEntry: "shrinks s (rectifyEntry nums a s)"
  using shrinks_refl[of s] by (simp add: shrinks_def rectifyEntry_def)

lemma unchanged_pendingDelete: "unchanged {} s (pendingDelete k s)"
  by (auto simp: unchanged_def pendingDelete_def)

lemma shrinks_pendingDelete: "shrinks s (pendingDelete k s)"
  unfolding shrinks_def pendingDelete_def AList.delete_eq by auto

lemma map_of_pendingElems:
  "map_of (pending s) k = Some todo \<Longrightarrow> set todo \<subseteq> pendingElems s"
  by (force simp: pendingElems_def pendingList_def dest: map_of_SomeD)

lemma delete_disjoint:
  "distinct (concat (map snd xs)) \<Longrightarrow> map_of xs k = Some todo \<Longrightarrow>
   set todo \<inter> set (concat (map snd (AList.delete k xs))) = {}"
proof (induction xs)
  case Nil
  then show ?case by simp
next
  case (Cons p xs)
  obtain k' t' where p: "p = (k', t')" by (cases p)
  show ?case
  proof (cases "k' = k")
    case True
    with Cons.prems p have "t' = todo" by simp
    moreover have "set (concat (map snd (AList.delete k xs))) \<subseteq> set (concat (map snd xs))"
      by (auto simp: AList.delete_eq)
    ultimately show ?thesis using Cons.prems p True by auto
  next
    case False
    with Cons.prems p have m: "map_of xs k = Some todo" by simp
    have "set todo \<subseteq> set (concat (map snd xs))"
      using m by (force dest: map_of_SomeD)
    then show ?thesis using Cons p False m by auto
  qed
qed

lemma pendingDelete_disjoint:
  "distinct (pendingList s) \<Longrightarrow> map_of (pending s) k = Some todo \<Longrightarrow>
   set todo \<inter> pendingElems (pendingDelete k s) = {}"
  using delete_disjoint[of "pending s" k todo]
  by (simp add: pendingElems_def pendingList_def pendingDelete_def)

lemma length_delete_less:
  "map_of xs k = Some v \<Longrightarrow> length (AList.delete k xs) < length xs"
  by (induction xs) (auto simp: less_Suc_eq_le length_delete_le split: if_splits)

subsection \<open>What the nested calls change\<close>

lemma effect_all:
  "(\<forall>s'. distinct (pendingList s) \<longrightarrow>
      setReplacementAlgorithmStart fuel element nums s = Some (Inr s') \<longrightarrow>
      unchanged ({element} \<union> (pendingElems s - pendingElems s')) s s' \<and> shrinks s s')"
  "(\<forall>x s'. distinct (pendingList s) \<longrightarrow> set es \<subseteq> stepsOf s x \<longrightarrow>
      rectifyEntries fuel nums2 es s = Some (Inr s') \<longrightarrow>
      unchanged ({x} \<union> (pendingElems s - pendingElems s')) s s' \<and> shrinks s s')"
  "(\<forall>s'. distinct (pendingList s) \<longrightarrow>
      startPending fuel a todo s = Some (Inr s') \<longrightarrow>
      unchanged (set todo \<union> (pendingElems s - pendingElems s')) s s' \<and> shrinks s s')"
proof (induction fuel element nums s and fuel nums2 es s and fuel a todo s
       rule: setReplacementAlgorithmStart_rectifyEntries_startPending.induct)
  case (1 element nums s)
  then show ?case by simp
next
  case (2 fuel element nums s)
  show ?case
  proof (intro allI impI)
    fix s'
    assume d: "distinct (pendingList s)"
      and r: "setReplacementAlgorithmStart (Suc fuel) element nums s = Some (Inr s')"
    from r obtain rl es where rl: "rootLists s element = Some rl"
      and es: "replacementAlgorithmToContainedLabeledStepEntries s element = Some es"
      and r': "rectifyEntries fuel nums es
                 (s\<lparr>rootLists := (rootLists s)(element \<mapsto> setStart nums rl)\<rparr>) = Some (Inr s')"
      by (auto split: option.splits)
    let ?s1 = "s\<lparr>rootLists := (rootLists s)(element \<mapsto> setStart nums rl)\<rparr>"
    have u1: "unchanged {element} s ?s1" using rl by (rule unchanged_setStart)
    have p1: "pendingList ?s1 = pendingList s" "pendingElems ?s1 = pendingElems s"
      by (simp_all add: pendingList_def pendingElems_def)
    have "set es \<subseteq> stepsOf ?s1 element" using es by (simp add: stepsOf_def)
    with "2.IH"[OF rl es] r' d p1
    have u2: "unchanged ({element} \<union> (pendingElems s - pendingElems s')) ?s1 s'"
      and sh: "shrinks ?s1 s'" by auto
    have "unchanged ({element} \<union> (pendingElems s - pendingElems s')) s s'"
      using u1 u2 by (rule unchanged_trans2) auto
    moreover have "shrinks s s'" using shrinks_setStart sh by (rule shrinks_trans)
    ultimately show "unchanged ({element} \<union> (pendingElems s - pendingElems s')) s s' \<and> shrinks s s'"
      by simp
  qed
next
  case (3 fuel nums s)
  then show ?case by (simp add: unchanged_refl shrinks_refl)
next
  case (4 fuel nums a es s)
  show ?case
  proof (intro allI impI)
    fix x s'
    assume d: "distinct (pendingList s)" and es: "set (a # es) \<subseteq> stepsOf s x"
      and r: "rectifyEntries fuel nums (a # es) s = Some (Inr s')"
    let ?T = "{x} \<union> (pendingElems s - pendingElems s')"
    let ?s1 = "rectifyEntry nums a s"
    have u1: "unchanged {x} s ?s1" using es by (auto intro: unchanged_rectifyEntry)
    have sh1: "shrinks s ?s1" by (rule shrinks_rectifyEntry)
    have st1: "stepsOf ?s1 = stepsOf s" using u1 by (rule unchanged_stepsOf)
    have p1: "pendingList ?s1 = pendingList s" "pendingElems ?s1 = pendingElems s"
      "pending ?s1 = pending s"
      by (simp_all add: pendingList_def pendingElems_def rectifyEntry_def)
    show "unchanged ?T s s' \<and> shrinks s s'"
    proof (cases "map_of (pending s) (eid (entries s a))")
      case None
      with r have r': "rectifyEntries fuel nums es ?s1 = Some (Inr s')" by simp
      from "4.IH"(1)[OF None] r' es st1 d p1
      have u2: "unchanged ?T ?s1 s'" and sh2: "shrinks ?s1 s'" by auto
      have "unchanged ?T s s'" using u1 u2 by (rule unchanged_trans2) auto
      moreover have "shrinks s s'" using sh1 sh2 by (rule shrinks_trans)
      ultimately show ?thesis by simp
    next
      case (Some todo)
      let ?s2 = "pendingDelete (eid (entries s a)) ?s1"
      from r Some obtain s3 where r3: "startPending fuel a todo ?s2 = Some (Inr s3)"
        and r': "rectifyEntries fuel nums es s3 = Some (Inr s')"
        by (auto split: option.splits sum.splits)
      have u2: "unchanged {x} s ?s2"
        using u1 unchanged_pendingDelete by (rule unchanged_trans2) auto
      have sh2: "shrinks s ?s2" using sh1 shrinks_pendingDelete by (rule shrinks_trans)
      have d2: "distinct (pendingList ?s2)" using sh2 d by (rule shrinks_distinct)
      have dj: "set todo \<inter> pendingElems ?s2 = {}"
        using pendingDelete_disjoint[of ?s1 "eid (entries s a)" todo] d Some p1 by simp
      from "4.IH"(2)[OF Some] r3 d2
      have u3: "unchanged (set todo \<union> (pendingElems ?s2 - pendingElems s3)) ?s2 s3"
        and sh3: "shrinks ?s2 s3" by auto
      have d3: "distinct (pendingList s3)" using sh3 d2 by (rule shrinks_distinct)
      have st3: "stepsOf s3 = stepsOf s"
        using unchanged_stepsOf[OF u3] unchanged_stepsOf[OF u2] by simp
      from "4.IH"(3)[OF Some r3] r' d3 es st3
      have u4: "unchanged ({x} \<union> (pendingElems s3 - pendingElems s')) s3 s'"
        and sh4: "shrinks s3 s'" by auto
      have sub: "pendingElems s' \<subseteq> pendingElems s3" "pendingElems s3 \<subseteq> pendingElems ?s2"
        "pendingElems ?s2 \<subseteq> pendingElems s" "set todo \<subseteq> pendingElems s"
        using shrinks_pendingElems[OF sh4] shrinks_pendingElems[OF sh3]
          shrinks_pendingElems[OF sh2] map_of_pendingElems[OF Some] by auto
      have "unchanged ?T s s3"
        using u2 u3 by (rule unchanged_trans2) (use sub dj in auto)
      then have "unchanged ?T s s'"
        using u4 by (rule unchanged_trans2) (use sub dj in auto)
      moreover have "shrinks s s'"
        using sh2 sh3 sh4 by (blast intro: shrinks_trans)
      ultimately show ?thesis by simp
    qed
  qed
next
  case (5 fuel a s)
  then show ?case by (simp add: unchanged_refl shrinks_refl)
next
  case (6 fuel a replacementAlgorithm todo s)
  show ?case
  proof (intro allI impI)
    fix s'
    assume d: "distinct (pendingList s)"
      and r: "startPending fuel a (replacementAlgorithm # todo) s = Some (Inr s')"
    let ?T = "set (replacementAlgorithm # todo) \<union> (pendingElems s - pendingElems s')"
    from r obtain s1 where
      r1: "setReplacementAlgorithmStart fuel replacementAlgorithm (stepNumbers (entries s a)) s
             = Some (Inr s1)"
      and r': "startPending fuel a todo s1 = Some (Inr s')"
      by (auto split: option.splits sum.splits)
    from "6.IH"(1) r1 d
    have u1: "unchanged ({replacementAlgorithm} \<union> (pendingElems s - pendingElems s1)) s s1"
      and sh1: "shrinks s s1" by auto
    have d1: "distinct (pendingList s1)" using sh1 d by (rule shrinks_distinct)
    from "6.IH"(2)[OF r1] r' d1
    have u2: "unchanged (set todo \<union> (pendingElems s1 - pendingElems s')) s1 s'"
      and sh2: "shrinks s1 s'" by auto
    have sub: "pendingElems s' \<subseteq> pendingElems s1" "pendingElems s1 \<subseteq> pendingElems s"
      using shrinks_pendingElems[OF sh2] shrinks_pendingElems[OF sh1] by auto
    have "unchanged ?T s s'" using u1 u2 by (rule unchanged_trans2) (use sub in auto)
    moreover have "shrinks s s'" using sh1 sh2 by (rule shrinks_trans)
    ultimately show "unchanged ?T s s' \<and> shrinks s s'" by simp
  qed
qed

subsection \<open>The nested calls return\<close>

lemma registered_unchanged: "unchanged T' s s' \<Longrightarrow> registered s T \<Longrightarrow> registered s' T"
  unfolding unchanged_def registered_def by (metis domIff)

lemma registered_mono: "registered s T \<Longrightarrow> T' \<subseteq> T \<Longrightarrow> registered s T'"
  by (auto simp: registered_def)

lemma total_all:
  "(\<forall>T. distinct (pendingList s) \<longrightarrow> element \<in> T \<longrightarrow> pendingElems s \<subseteq> T \<longrightarrow>
      registered s T \<longrightarrow> length (pending s) < fuel \<longrightarrow>
      (\<exists>s'. setReplacementAlgorithmStart fuel element nums s = Some (Inr s')))"
  "(\<forall>T x. distinct (pendingList s) \<longrightarrow> set es \<subseteq> stepsOf s x \<longrightarrow> pendingElems s \<subseteq> T \<longrightarrow>
      registered s T \<longrightarrow> length (pending s) \<le> fuel \<longrightarrow>
      (\<exists>s'. rectifyEntries fuel nums2 es s = Some (Inr s')))"
  "(\<forall>T. distinct (pendingList s) \<longrightarrow> set todo \<subseteq> T \<longrightarrow> pendingElems s \<subseteq> T \<longrightarrow>
      registered s T \<longrightarrow> length (pending s) < fuel \<longrightarrow>
      (\<exists>s'. startPending fuel a todo s = Some (Inr s')))"
proof (induction fuel element nums s and fuel nums2 es s and fuel a todo s
       rule: setReplacementAlgorithmStart_rectifyEntries_startPending.induct)
  case (1 element nums s)
  then show ?case by simp
next
  case (2 fuel element nums s)
  show ?case
  proof (intro allI impI)
    fix T
    assume d: "distinct (pendingList s)" and T: "element \<in> T" "pendingElems s \<subseteq> T"
      and reg: "registered s T" and len: "length (pending s) < Suc fuel"
    from reg T(1) obtain rl es where rl: "rootLists s element = Some rl"
      and es: "replacementAlgorithmToContainedLabeledStepEntries s element = Some es"
      by (auto simp: registered_def)
    let ?s1 = "s\<lparr>rootLists := (rootLists s)(element \<mapsto> setStart nums rl)\<rparr>"
    have u1: "unchanged {element} s ?s1" using rl by (rule unchanged_setStart)
    have p1: "pendingList ?s1 = pendingList s" "pendingElems ?s1 = pendingElems s"
      by (simp_all add: pendingList_def pendingElems_def)
    have a1: "set es \<subseteq> stepsOf ?s1 element" using es by (simp add: stepsOf_def)
    have a2: "registered ?s1 T" using u1 reg by (rule registered_unchanged)
    have a3: "length (pending ?s1) \<le> fuel" using len by simp
    have a4: "distinct (pendingList ?s1)" using d p1 by simp
    have a5: "pendingElems ?s1 \<subseteq> T" using T p1 by simp
    have "\<exists>s'. rectifyEntries fuel nums es ?s1 = Some (Inr s')"
      using "2.IH"[OF rl es, rule_format, OF a4 a1 a5 a2 a3] .
    then show "\<exists>s'. setReplacementAlgorithmStart (Suc fuel) element nums s = Some (Inr s')"
      using rl es by simp
  qed
next
  case (3 fuel nums s)
  then show ?case by simp
next
  case (4 fuel nums a es s)
  show ?case
  proof (intro allI impI)
    fix T x
    assume d: "distinct (pendingList s)" and es: "set (a # es) \<subseteq> stepsOf s x"
      and T: "pendingElems s \<subseteq> T" and reg: "registered s T"
      and len: "length (pending s) \<le> fuel"
    let ?s1 = "rectifyEntry nums a s"
    have u1: "unchanged {x} s ?s1" using es by (auto intro: unchanged_rectifyEntry)
    have st1: "stepsOf ?s1 = stepsOf s" using u1 by (rule unchanged_stepsOf)
    have p1: "pendingList ?s1 = pendingList s" "pendingElems ?s1 = pendingElems s"
      "pending ?s1 = pending s"
      by (simp_all add: pendingList_def pendingElems_def rectifyEntry_def)
    have reg1: "registered ?s1 T" using u1 reg by (rule registered_unchanged)
    show "\<exists>s'. rectifyEntries fuel nums (a # es) s = Some (Inr s')"
    proof (cases "map_of (pending s) (eid (entries s a))")
      case None
      have b1: "distinct (pendingList ?s1)" using d p1 by simp
      have b2: "set es \<subseteq> stepsOf ?s1 x" using es st1 by simp
      have b3: "pendingElems ?s1 \<subseteq> T" using T p1 by simp
      have b4: "length (pending ?s1) \<le> fuel" using len p1 by simp
      have "\<exists>s'. rectifyEntries fuel nums es ?s1 = Some (Inr s')"
        using "4.IH"(1)[OF None, rule_format, OF b1 b2 b3 reg1 b4] .
      then show ?thesis using None by simp
    next
      case (Some todo)
      let ?s2 = "pendingDelete (eid (entries s a)) ?s1"
      have u2: "unchanged {} ?s1 ?s2" by (rule unchanged_pendingDelete)
      have sh2: "shrinks ?s1 ?s2" by (rule shrinks_pendingDelete)
      have d2: "distinct (pendingList ?s2)" using sh2 d p1 by (auto dest: shrinks_distinct)
      have reg2: "registered ?s2 T" using u2 reg1 by (rule registered_unchanged)
      have T2: "pendingElems ?s2 \<subseteq> T" using shrinks_pendingElems[OF sh2] T p1 by auto
      have todo: "set todo \<subseteq> T" using map_of_pendingElems[OF Some] T by blast
      have len2: "length (pending ?s2) < fuel"
        using length_delete_less[OF Some] len by (simp add: pendingDelete_def p1)
      from "4.IH"(2)[OF Some, rule_format, OF d2 todo T2 reg2 len2]
      obtain s3 where r3: "startPending fuel a todo ?s2 = Some (Inr s3)" ..
      note e3 = effect_all(3)[rule_format, OF d2 r3]
      have u3: "unchanged (set todo \<union> (pendingElems ?s2 - pendingElems s3)) ?s2 s3"
        and sh3: "shrinks ?s2 s3" using e3 by simp_all
      have d3: "distinct (pendingList s3)" using sh3 d2 by (rule shrinks_distinct)
      have st3: "stepsOf s3 = stepsOf s"
        using unchanged_stepsOf[OF u3] unchanged_stepsOf[OF u2] st1 by simp
      have reg3: "registered s3 T" using u3 reg2 by (rule registered_unchanged)
      have T3: "pendingElems s3 \<subseteq> T" using shrinks_pendingElems[OF sh3] T2 by auto
      have len3: "length (pending s3) \<le> fuel" using shrinks_length[OF sh3] len2 by simp
      have c2: "set es \<subseteq> stepsOf s3 x" using es st3 by simp
      have "\<exists>s'. rectifyEntries fuel nums es s3 = Some (Inr s')"
        using "4.IH"(3)[OF Some r3 refl, rule_format, OF d3 c2 T3 reg3 len3] .
      then show ?thesis using Some r3 by simp
    qed
  qed
next
  case (5 fuel a s)
  then show ?case by simp
next
  case (6 fuel a replacementAlgorithm todo s)
  show ?case
  proof (intro allI impI)
    fix T
    assume d: "distinct (pendingList s)" and todo: "set (replacementAlgorithm # todo) \<subseteq> T"
      and T: "pendingElems s \<subseteq> T" and reg: "registered s T"
      and len: "length (pending s) < fuel"
    have hd: "replacementAlgorithm \<in> T" and tl: "set todo \<subseteq> T" using todo by simp_all
    from "6.IH"(1)[rule_format, OF d hd T reg len] obtain s1 where
      r1: "setReplacementAlgorithmStart fuel replacementAlgorithm (stepNumbers (entries s a)) s
             = Some (Inr s1)" ..
    note e1 = effect_all(1)[rule_format, OF d r1]
    have u1: "unchanged ({replacementAlgorithm} \<union> (pendingElems s - pendingElems s1)) s s1"
      and sh1: "shrinks s s1" using e1 by simp_all
    have d1: "distinct (pendingList s1)" using sh1 d by (rule shrinks_distinct)
    have reg1: "registered s1 T" using u1 reg by (rule registered_unchanged)
    have T1: "pendingElems s1 \<subseteq> T" using shrinks_pendingElems[OF sh1] T by auto
    have len1: "length (pending s1) < fuel" using shrinks_length[OF sh1] len by simp
    have "\<exists>s'. startPending fuel a todo s1 = Some (Inr s')"
      using "6.IH"(2)[OF r1 refl, rule_format, OF d1 tl T1 reg1 len1] .
    then show "\<exists>s'. startPending fuel a (replacementAlgorithm # todo) s = Some (Inr s')"
      using r1 by simp
  qed
qed

lemma unchanged_outside:
  assumes "unchanged T s s'" "x \<notin> T" "ownSteps s"
  shows "rootLists s' x = rootLists s x" and "\<forall>a\<in>stepsOf s x. entries s' a = entries s a"
proof -
  show "rootLists s' x = rootLists s x" using assms(1,2) by (simp add: unchanged_def)
  show "\<forall>a\<in>stepsOf s x. entries s' a = entries s a"
  proof
    fix a assume a: "a \<in> stepsOf s x"
    have "a \<notin> (\<Union>y\<in>T. stepsOf s y)"
    proof
      assume "a \<in> (\<Union>y\<in>T. stepsOf s y)"
      then obtain y where y: "y \<in> T" "a \<in> stepsOf s y" by blast
      with assms(2) have "x \<noteq> y" by blast
      with assms(3) a y(2) show False unfolding ownSteps_def by blast
    qed
    with assms(1) show "entries s' a = entries s a" by (simp add: unchanged_def)
  qed
qed

lemma ownSteps_unchanged: "unchanged T s s' \<Longrightarrow> ownSteps s \<Longrightarrow> ownSteps s'"
  by (simp add: ownSteps_def unchanged_stepsOf)



subsection \<open>Claim C1: what one call of \<open>setReplacementAlgorithmStart\<close> sets\<close>





subsection \<open>The loop over the declarations\<close>

lemma push_set:
  "set (concat (map snd (AList.update k
      (case map_of xs k of None \<Rightarrow> [e] | Some td \<Rightarrow> td @ [e]) xs)))
   = insert e (set (concat (map snd xs)))"
  by (induction xs) auto

lemma push_distinct:
  "distinct (concat (map snd xs)) \<Longrightarrow> e \<notin> set (concat (map snd xs)) \<Longrightarrow>
   distinct (concat (map snd (AList.update k
      (case map_of xs k of None \<Rightarrow> [e] | Some td \<Rightarrow> td @ [e]) xs)))"
proof (induction xs)
  case Nil
  then show ?case by simp
next
  case (Cons p xs)
  obtain k' t' where p: "p = (k', t')" by (cases p)
  show ?case
  proof (cases "k' = k")
    case True
    then show ?thesis using Cons.prems p by auto
  next
    case False
    then show ?thesis using Cons p push_set[where k=k and xs=xs and e=e] by auto
  qed
qed

lemma pendingElems_push: "pendingElems (pendingPush t e s) = insert e (pendingElems s)"
  unfolding pendingElems_def pendingList_def pendingPush_def
  using push_set[where k=t and xs="pending s" and e=e] by simp

lemma distinct_push:
  "distinct (pendingList s) \<Longrightarrow> e \<notin> pendingElems s \<Longrightarrow> distinct (pendingList (pendingPush t e s))"
  unfolding pendingElems_def pendingList_def pendingPush_def
  using push_distinct[where k=t and xs="pending s" and e=e] by simp

lemma length_update_le: "length (AList.update k v xs) \<le> Suc (length xs)"
  by (induction xs) auto

lemma length_push: "length (pending (pendingPush t e s)) \<le> Suc (length (pending s))"
  by (simp add: pendingPush_def length_update_le)

lemma unchanged_push: "unchanged {} s (pendingPush t e s)"
  by (simp add: unchanged_def pendingPush_def)

lemma unchanged_warn: "unchanged {} s (warn w s)"
  by (simp add: unchanged_def warn_def)

lemma unstartable_unchanged:
  assumes "unchanged T s s'" shows "unstartable s decls \<subseteq> unstartable s' decls"
proof
  note u = assms
  fix e assume "e \<in> unstartable s decls"
  then obtain t where t: "(e, t) \<in> set decls" "t \<notin> labeledStepsToBeRectified s"
    "invalidTarget s t" by (auto simp: unstartable_def)
  have "t \<notin> labeledStepsToBeRectified s'" using u t(2) by (auto simp: unchanged_def)
  moreover have "invalidTarget s' t"
    using u t(3) by (auto simp: unchanged_def invalidTarget_def split: option.splits)
  ultimately show "e \<in> unstartable s' decls" using t(1) by (auto simp: unstartable_def)
qed

lemma loop_effect:
  assumes "distinct (pendingList s @ map fst rest)"
    and "registered s (pendingElems s \<union> fst ` set rest)"
    and "length (pending s) + length rest < fuel"
  shows "\<exists>s'. processReplacementAlgorithms fuel rest s = Some (Inr s') \<and>
      unchanged ((pendingElems s \<union> fst ` set rest) - pendingElems s' - unstartable s rest) s s' \<and>
      pendingElems s' \<subseteq> pendingElems s \<union> fst ` set rest \<and>
      distinct (pendingList s') \<and>
      globalWarnings s' = globalWarnings s \<and>
      set (warnings s) \<subseteq> set (warnings s')"
  using assms
proof (induction rest arbitrary: s)
  case Nil
  then show ?case by (simp add: unchanged_refl)
next
  case (Cons d rest)
  obtain e t where d: "d = (e, t)" by (cases d)
  have dl: "distinct (pendingList s)" and dr: "distinct (map fst rest)"
    and ep: "e \<notin> pendingElems s" and er: "e \<notin> fst ` set rest"
    and pr: "pendingElems s \<inter> fst ` set rest = {}"
    using Cons.prems(1) d by (auto simp: pendingElems_def)
  let ?G = "(pendingElems s \<union> fst ` set (d # rest))"
  have step: "\<exists>s1 T1. processReplacementAlgorithms fuel (d # rest) s =
        processReplacementAlgorithms fuel rest s1 \<and>
      unchanged T1 s s1 \<and> T1 \<subseteq> insert e (pendingElems s - pendingElems s1) \<and>
      T1 \<inter> unstartable s (d # rest) = {} \<and> T1 \<inter> pendingElems s1 = {} \<and>
      pendingElems s1 \<subseteq> insert e (pendingElems s) \<and>
      (e \<in> pendingElems s1 \<longrightarrow> e \<notin> unstartable s (d # rest)) \<and>
      distinct (pendingList s1) \<and> length (pending s1) \<le> Suc (length (pending s)) \<and>
      globalWarnings s1 = globalWarnings s \<and> set (warnings s) \<subseteq> set (warnings s1)"
  proof (cases "t \<in> labeledStepsToBeRectified s")
    case True
    let ?s1 = "pendingPush t e s"
    have "processReplacementAlgorithms fuel (d # rest) s =
        processReplacementAlgorithms fuel rest ?s1" using True d by simp
    moreover have "unchanged {} s ?s1" by (rule unchanged_push)
    moreover have "e \<notin> unstartable s (d # rest)"
      using True d er by (auto simp: unstartable_def rev_image_eqI)
    moreover have "globalWarnings ?s1 = globalWarnings s" "warnings ?s1 = warnings s"
      by (simp_all add: globalWarnings_def pendingPush_def)
    ultimately show ?thesis
      using pendingElems_push[of t e s] distinct_push[OF dl ep] length_push[of t e s]
      by (intro exI[of _ ?s1] exI[of _ "{}"]) auto
  next
    case False
    show ?thesis
    proof (cases "invalidTarget s t")
      case True
      then obtain w where
        "processReplacementAlgorithms fuel (d # rest) s =
           processReplacementAlgorithms fuel rest (warn w s)" "\<not> isGlobalWarning w"
        using False d by (auto simp: invalidTarget_def split: option.splits)
      moreover have "unchanged {} s (warn w s)" by (rule unchanged_warn)
      moreover have "pendingElems (warn w s) = pendingElems s"
        "pendingList (warn w s) = pendingList s" "pending (warn w s) = pending s"
        by (simp_all add: pendingElems_def pendingList_def warn_def)
      ultimately show ?thesis using dl ep
        by (intro exI[of _ "warn w s"] exI[of _ "{}"]) (auto simp: globalWarnings_def warn_def)
    next
      case valid: False
      then obtain a where a: "byId s t = Some a" "etype (entries s a) = ''step''"
        by (auto simp: invalidTarget_def split: option.splits)
      let ?T = "insert e (pendingElems s)"
      have "registered s ?T" using Cons.prems(2) d
        by (auto simp: registered_def)
      moreover have "length (pending s) < fuel" using Cons.prems(3) by simp
      ultimately obtain s1 where
        r1: "setReplacementAlgorithmStart fuel e (stepNumbers (entries s a)) s = Some (Inr s1)"
        using total_all(1)[rule_format, OF dl, of e ?T fuel "stepNumbers (entries s a)"] by auto
      note e1 = effect_all(1)[rule_format, OF dl r1]
      have u1: "unchanged ({e} \<union> (pendingElems s - pendingElems s1)) s s1"
        and sh1: "shrinks s s1" using e1 by simp_all
      have "processReplacementAlgorithms fuel (d # rest) s =
          processReplacementAlgorithms fuel rest s1" using False a r1 d by simp
      moreover have "e \<notin> unstartable s (d # rest)"
        using valid d er by (auto simp: unstartable_def rev_image_eqI)
      moreover have "pendingElems s \<inter> unstartable s (d # rest) = {}"
        using ep pr d by (auto simp: unstartable_def rev_image_eqI)
      moreover have "globalWarnings s1 = globalWarnings s" "warnings s1 = warnings s"
        using sh1 by (simp_all add: globalWarnings_def shrinks_def)
      ultimately show ?thesis
        using u1 shrinks_pendingElems[OF sh1] shrinks_distinct[OF sh1 dl] shrinks_length[OF sh1] ep
        by (intro exI[of _ s1] exI[of _ "{e} \<union> (pendingElems s - pendingElems s1)"]) auto
    qed
  qed
  then obtain s1 T1 where eq: "processReplacementAlgorithms fuel (d # rest) s =
        processReplacementAlgorithms fuel rest s1"
    and u1: "unchanged T1 s s1" and T1: "T1 \<subseteq> insert e (pendingElems s - pendingElems s1)"
    and T1u: "T1 \<inter> unstartable s (d # rest) = {}" and T1p: "T1 \<inter> pendingElems s1 = {}"
    and p1: "pendingElems s1 \<subseteq> insert e (pendingElems s)"
    and eu: "e \<in> pendingElems s1 \<longrightarrow> e \<notin> unstartable s (d # rest)"
    and d1: "distinct (pendingList s1)" and l1: "length (pending s1) \<le> Suc (length (pending s))"
    and g1: "globalWarnings s1 = globalWarnings s"
    and w1: "set (warnings s) \<subseteq> set (warnings s1)" by blast
  have A1: "distinct (pendingList s1 @ map fst rest)"
    using d1 dr p1 er pr by (auto simp: pendingElems_def)
  have "registered s1 ?G" using u1 Cons.prems(2) by (rule registered_unchanged)
  then have A2: "registered s1 (pendingElems s1 \<union> fst ` set rest)"
    by (rule registered_mono) (use p1 d in auto)
  have A3: "length (pending s1) + length rest < fuel" using l1 Cons.prems(3) by simp
  from Cons.IH[OF A1 A2 A3] obtain s' where
    r: "processReplacementAlgorithms fuel rest s1 = Some (Inr s')"
    and u2: "unchanged ((pendingElems s1 \<union> fst ` set rest) - pendingElems s' - unstartable s1 rest)
               s1 s'"
    and p2: "pendingElems s' \<subseteq> pendingElems s1 \<union> fst ` set rest"
    and d2: "distinct (pendingList s')" and g2: "globalWarnings s' = globalWarnings s1"
    and w2: "set (warnings s1) \<subseteq> set (warnings s')"
    by blast
  have us: "unstartable s rest \<subseteq> unstartable s1 rest" using u1 by (rule unstartable_unchanged)
  have un: "unstartable s (d # rest) \<subseteq> insert e (unstartable s rest)"
    using d by (auto simp: unstartable_def)
  have "unchanged (?G - pendingElems s' - unstartable s (d # rest)) s s'"
    using u1 u2
  proof (rule unchanged_trans2)
    have "T1 \<inter> pendingElems s' = {}" using T1 T1p p2 pr er by blast
    then show "T1 \<subseteq> ?G - pendingElems s' - unstartable s (d # rest)"
      using T1 T1u d by auto
    show "(pendingElems s1 \<union> fst ` set rest) - pendingElems s' - unstartable s1 rest
        \<subseteq> ?G - pendingElems s' - unstartable s (d # rest)"
      using p1 us un eu p2 er d by auto
  qed
  moreover have "pendingElems s' \<subseteq> ?G" using p1 p2 d by auto
  ultimately show ?case using eq r d2 g1 g2 w1 w2 by auto
qed

subsection \<open>Targets that are never rectified\<close>

lemma keeps_refl: "keeps tg s s"
  by (simp add: keeps_def)

lemma keeps_trans: "keeps tg s s1 \<Longrightarrow> keeps tg s1 s2 \<Longrightarrow> keeps tg s s2"
  unfolding keeps_def by auto

lemma safe_unchanged: "unchanged T s s' \<Longrightarrow> safe tg s' = safe tg s"
  by (auto simp: safe_def fun_eq_iff unchanged_stepsOf) (auto simp: unchanged_def)

lemma guarded_shrinks:
  "unchanged T s s' \<Longrightarrow> shrinks s s' \<Longrightarrow> guarded tg s \<Longrightarrow> guarded tg s'"
  unfolding guarded_def shrinks_def using safe_unchanged[of T s s' tg] by auto

lemma keeps_rectifyEntry:
  "eid (entries s a) \<notin> tg \<Longrightarrow> keeps tg s (rectifyEntry nums a s)"
  by (auto simp: keeps_def rectifyEntry_def)

lemma keeps_pendingDelete: "k \<notin> tg \<Longrightarrow> keeps tg s (pendingDelete k s)"
  by (auto simp: keeps_def pendingDelete_def delete_conv')

lemma protect_all:
  "(\<forall>s'. distinct (pendingList s) \<longrightarrow> safe tg s element \<longrightarrow> guarded tg s \<longrightarrow>
      setReplacementAlgorithmStart fuel element nums s = Some (Inr s') \<longrightarrow> keeps tg s s')"
  "(\<forall>x s'. distinct (pendingList s) \<longrightarrow> set es \<subseteq> stepsOf s x \<longrightarrow> safe tg s x \<longrightarrow> guarded tg s \<longrightarrow>
      rectifyEntries fuel nums2 es s = Some (Inr s') \<longrightarrow> keeps tg s s')"
  "(\<forall>s'. distinct (pendingList s) \<longrightarrow> (\<forall>x\<in>set todo. safe tg s x) \<longrightarrow> guarded tg s \<longrightarrow>
      startPending fuel a todo s = Some (Inr s') \<longrightarrow> keeps tg s s')"
proof (induction fuel element nums s and fuel nums2 es s and fuel a todo s
       rule: setReplacementAlgorithmStart_rectifyEntries_startPending.induct)
  case (1 element nums s)
  then show ?case by simp
next
  case (2 fuel element nums s)
  show ?case
  proof (intro allI impI)
    fix s'
    assume d: "distinct (pendingList s)" and sf: "safe tg s element" and g: "guarded tg s"
      and r: "setReplacementAlgorithmStart (Suc fuel) element nums s = Some (Inr s')"
    from r obtain rl es where rl: "rootLists s element = Some rl"
      and es: "replacementAlgorithmToContainedLabeledStepEntries s element = Some es"
      and r': "rectifyEntries fuel nums es
                 (s\<lparr>rootLists := (rootLists s)(element \<mapsto> setStart nums rl)\<rparr>) = Some (Inr s')"
      by (auto split: option.splits)
    let ?s1 = "s\<lparr>rootLists := (rootLists s)(element \<mapsto> setStart nums rl)\<rparr>"
    have u1: "unchanged {element} s ?s1" using rl by (rule unchanged_setStart)
    have a1: "distinct (pendingList ?s1)" using d by (simp add: pendingList_def)
    have a2: "set es \<subseteq> stepsOf ?s1 element" using es by (simp add: stepsOf_def)
    have a3: "safe tg ?s1 element" using sf safe_unchanged[OF u1] by simp
    have a4: "guarded tg ?s1" using u1 shrinks_setStart g by (rule guarded_shrinks)
    have "keeps tg ?s1 s'" using "2.IH"[OF rl es, rule_format, OF a1 a2 a3 a4 r'] .
    moreover have "keeps tg s ?s1" by (simp add: keeps_def)
    ultimately show "keeps tg s s'" by (blast intro: keeps_trans)
  qed
next
  case (3 fuel nums s)
  then show ?case by (simp add: keeps_refl)
next
  case (4 fuel nums a es s)
  show ?case
  proof (intro allI impI)
    fix x s'
    assume d: "distinct (pendingList s)" and es: "set (a # es) \<subseteq> stepsOf s x"
      and sf: "safe tg s x" and g: "guarded tg s"
      and r: "rectifyEntries fuel nums (a # es) s = Some (Inr s')"
    let ?s1 = "rectifyEntry nums a s"
    let ?k = "eid (entries s a)"
    have ktg: "?k \<notin> tg" using sf es by (auto simp: safe_def)
    have u1: "unchanged {x} s ?s1" using es by (auto intro: unchanged_rectifyEntry)
    have sh1: "shrinks s ?s1" by (rule shrinks_rectifyEntry)
    have k1: "keeps tg s ?s1" using ktg by (rule keeps_rectifyEntry)
    have d1: "distinct (pendingList ?s1)" using sh1 d by (rule shrinks_distinct)
    have g1: "guarded tg ?s1" using u1 sh1 g by (rule guarded_shrinks)
    have sf1: "safe tg ?s1 = safe tg s" using u1 by (rule safe_unchanged)
    have st1: "stepsOf ?s1 = stepsOf s" using u1 by (rule unchanged_stepsOf)
    have p1: "pending ?s1 = pending s" by (simp add: rectifyEntry_def)
    show "keeps tg s s'"
    proof (cases "map_of (pending s) ?k")
      case None
      with r have r': "rectifyEntries fuel nums es ?s1 = Some (Inr s')" by simp
      have b2: "set es \<subseteq> stepsOf ?s1 x" using es st1 by simp
      have b3: "safe tg ?s1 x" using sf sf1 by simp
      have "keeps tg ?s1 s'" using "4.IH"(1)[OF None, rule_format, OF d1 b2 b3 g1 r'] .
      with k1 show ?thesis by (rule keeps_trans)
    next
      case (Some todo)
      let ?s2 = "pendingDelete ?k ?s1"
      from r Some obtain s3 where r3: "startPending fuel a todo ?s2 = Some (Inr s3)"
        and r': "rectifyEntries fuel nums es s3 = Some (Inr s')"
        by (auto split: option.splits sum.splits)
      have u2: "unchanged {} ?s1 ?s2" by (rule unchanged_pendingDelete)
      have sh2: "shrinks ?s1 ?s2" by (rule shrinks_pendingDelete)
      have k2: "keeps tg ?s1 ?s2" using ktg by (rule keeps_pendingDelete)
      have d2: "distinct (pendingList ?s2)" using sh2 d1 by (rule shrinks_distinct)
      have g2: "guarded tg ?s2" using u2 sh2 g1 by (rule guarded_shrinks)
      have sf2: "safe tg ?s2 = safe tg s" using safe_unchanged[OF u2] sf1 by simp
      have st2: "stepsOf ?s2 = stepsOf s" using unchanged_stepsOf[OF u2] st1 by simp
      have "(?k, todo) \<in> set (pending s)" using Some by (rule map_of_SomeD)
      then have c1: "\<forall>y\<in>set todo. safe tg ?s2 y"
        using g ktg sf2 by (auto simp: guarded_def)
      have k3: "keeps tg ?s2 s3" using "4.IH"(2)[OF Some, rule_format, OF d2 c1[rule_format] g2 r3] .
      note e3 = effect_all(3)[rule_format, OF d2 r3]
      have u3: "unchanged (set todo \<union> (pendingElems ?s2 - pendingElems s3)) ?s2 s3"
        and sh3: "shrinks ?s2 s3" using e3 by simp_all
      have d3: "distinct (pendingList s3)" using sh3 d2 by (rule shrinks_distinct)
      have g3: "guarded tg s3" using u3 sh3 g2 by (rule guarded_shrinks)
      have sf3: "safe tg s3 x" using safe_unchanged[OF u3] sf2 sf by simp
      have st3: "set es \<subseteq> stepsOf s3 x" using unchanged_stepsOf[OF u3] st2 es by simp
      have k4: "keeps tg s3 s'" using "4.IH"(3)[OF Some r3 refl, rule_format, OF d3 st3 sf3 g3 r'] .
      show ?thesis using k1 k2 k3 k4 by (blast intro: keeps_trans)
    qed
  qed
next
  case (5 fuel a s)
  then show ?case by (simp add: keeps_refl)
next
  case (6 fuel a replacementAlgorithm todo s)
  show ?case
  proof (intro allI impI)
    fix s'
    assume d: "distinct (pendingList s)"
      and sf: "\<forall>x\<in>set (replacementAlgorithm # todo). safe tg s x" and g: "guarded tg s"
      and r: "startPending fuel a (replacementAlgorithm # todo) s = Some (Inr s')"
    from r obtain s1 where
      r1: "setReplacementAlgorithmStart fuel replacementAlgorithm (stepNumbers (entries s a)) s
             = Some (Inr s1)"
      and r': "startPending fuel a todo s1 = Some (Inr s')"
      by (auto split: option.splits sum.splits)
    have sfh: "safe tg s replacementAlgorithm" using sf by simp
    have k1: "keeps tg s s1" using "6.IH"(1)[rule_format, OF d sfh g r1] .
    note e1 = effect_all(1)[rule_format, OF d r1]
    have u1: "unchanged ({replacementAlgorithm} \<union> (pendingElems s - pendingElems s1)) s s1"
      and sh1: "shrinks s s1" using e1 by simp_all
    have d1: "distinct (pendingList s1)" using sh1 d by (rule shrinks_distinct)
    have g1: "guarded tg s1" using u1 sh1 g by (rule guarded_shrinks)
    have sf1: "\<forall>x\<in>set todo. safe tg s1 x" using sf safe_unchanged[OF u1] by simp
    have k2: "keeps tg s1 s'" using "6.IH"(2)[OF r1 refl, rule_format, OF d1 sf1[rule_format] g1 r'] .
    show "keeps tg s s'" using k1 k2 by (rule keeps_trans)
  qed
qed

lemma set_update_subset: "set (AList.update k v xs) \<subseteq> insert (k, v) (set xs)"
  by (induction xs) auto

lemma invalidTarget_unchanged: "unchanged T s s' \<Longrightarrow> invalidTarget s' = invalidTarget s"
  by (auto simp: invalidTarget_def unchanged_def fun_eq_iff split: option.splits)

lemma loop_stuck:
  assumes "processReplacementAlgorithms fuel rest s = Some (Inr s')"
    and "distinct (pendingList s @ map fst rest)"
    and "snd ` D \<subseteq> labeledStepsToBeRectified s"
    and "guarded (snd ` D) s"
    and "\<forall>d\<in>D. d \<in> set rest \<or>
           (\<exists>todo. map_of (pending s) (snd d) = Some todo \<and> fst d \<in> set todo)"
    and "\<forall>d\<in>set rest. \<not> safe (snd ` D) s (fst d) \<longrightarrow>
           d \<in> D \<or> (snd d \<notin> labeledStepsToBeRectified s \<and> invalidTarget s (snd d))"
  shows "\<forall>d\<in>D. \<exists>todo. map_of (pending s') (snd d) = Some todo \<and> fst d \<in> set todo"
  using assms
proof (induction rest arbitrary: s)
  case Nil
  then show ?case by simp
next
  case (Cons d rest)
  let ?tg = "snd ` D"
  obtain e t where d: "d = (e, t)" by (cases d)
  have dl: "distinct (pendingList s)" and dr: "distinct (map fst rest)"
    and ep: "e \<notin> pendingElems s" and er: "e \<notin> fst ` set rest"
    and pr: "pendingElems s \<inter> fst ` set rest = {}"
    using Cons.prems(2) d by (auto simp: pendingElems_def)
  have step: "\<exists>s1. processReplacementAlgorithms fuel rest s1 = Some (Inr s') \<and>
      distinct (pendingList s1 @ map fst rest) \<and>
      ?tg \<subseteq> labeledStepsToBeRectified s1 \<and> guarded ?tg s1 \<and>
      (\<forall>d\<in>D. d \<in> set rest \<or>
           (\<exists>todo. map_of (pending s1) (snd d) = Some todo \<and> fst d \<in> set todo)) \<and>
      safe ?tg s1 = safe ?tg s \<and> invalidTarget s1 = invalidTarget s \<and>
      labeledStepsToBeRectified s1 \<subseteq> labeledStepsToBeRectified s"
  proof (cases "t \<in> labeledStepsToBeRectified s")
    case True
    let ?s1 = "pendingPush t e s"
    let ?v = "case map_of (pending s) t of None \<Rightarrow> [e] | Some todo \<Rightarrow> todo @ [e]"
    have pend: "pending ?s1 = AList.update t ?v (pending s)" by (simp add: pendingPush_def)
    have u1: "unchanged {} s ?s1" by (rule unchanged_push)
    have sf: "safe ?tg ?s1 = safe ?tg s" using u1 by (rule safe_unchanged)
    have r1: "processReplacementAlgorithms fuel rest ?s1 = Some (Inr s')"
      using Cons.prems(1) True d by simp
    have d1: "distinct (pendingList ?s1 @ map fst rest)"
      using distinct_push[OF dl ep, of t] dr pendingElems_push[of t e s] pr er
      by (auto simp: pendingElems_def)
    have g1: "guarded ?tg ?s1"
      unfolding guarded_def
    proof (intro ballI impI)
      fix p x assume p: "p \<in> set (pending ?s1)" and ntg: "fst p \<notin> ?tg" and x: "x \<in> set (snd p)"
      from p pend set_update_subset[of t ?v "pending s"]
      consider "p = (t, ?v)" | "p \<in> set (pending s)" by auto
      then show "safe ?tg ?s1 x"
      proof cases
        case 1
        then have tn: "t \<notin> ?tg" using ntg by simp
        have "x = e \<or> (\<exists>todo. map_of (pending s) t = Some todo \<and> x \<in> set todo)"
          using x 1 by (auto split: option.splits)
        then show ?thesis
        proof
          assume "x = e"
          have "d \<notin> D" using tn d by (auto simp: rev_image_eqI)
          then have "safe ?tg s e" using Cons.prems(6) True d by auto
          then show ?thesis using sf \<open>x = e\<close> by simp
        next
          assume "\<exists>todo. map_of (pending s) t = Some todo \<and> x \<in> set todo"
          then obtain todo where "(t, todo) \<in> set (pending s)" "x \<in> set todo"
            by (auto dest: map_of_SomeD)
          then show ?thesis using Cons.prems(4) tn sf by (auto simp: guarded_def)
        qed
      next
        case 2
        then show ?thesis using Cons.prems(4) ntg x sf by (auto simp: guarded_def)
      qed
    qed
    have c1: "\<forall>d'\<in>D. d' \<in> set rest \<or>
           (\<exists>todo. map_of (pending ?s1) (snd d') = Some todo \<and> fst d' \<in> set todo)"
    proof
      fix d' assume d': "d' \<in> D"
      with Cons.prems(5) consider "d' = d" | "d' \<in> set rest"
        | todo where "map_of (pending s) (snd d') = Some todo" "fst d' \<in> set todo" by auto
      then show "d' \<in> set rest \<or>
           (\<exists>todo. map_of (pending ?s1) (snd d') = Some todo \<and> fst d' \<in> set todo)"
      proof cases
        case 1
        then show ?thesis using d pend by (auto simp: update_conv' split: option.splits)
      next
        case 2
        then show ?thesis by simp
      next
        case 3
        then show ?thesis using pend by (auto simp: update_conv')
      qed
    qed
    show ?thesis
      using r1 d1 g1 c1 sf Cons.prems(3) invalidTarget_unchanged[OF u1]
      by (intro exI[of _ ?s1]) (auto simp: pendingPush_def)
  next
    case False
    have dD: "d \<notin> D" using False Cons.prems(3) d by (auto simp: rev_image_eqI)
    show ?thesis
    proof (cases "invalidTarget s t")
      case True
      then obtain w where
        r1: "processReplacementAlgorithms fuel rest (warn w s) = Some (Inr s')"
        using False d Cons.prems(1) by (auto simp: invalidTarget_def split: option.splits)
      have u1: "unchanged {} s (warn w s)" by (rule unchanged_warn)
      have "pendingList (warn w s) = pendingList s" "pending (warn w s) = pending s"
        "labeledStepsToBeRectified (warn w s) = labeledStepsToBeRectified s"
        by (simp_all add: pendingList_def warn_def)
      moreover have "guarded ?tg (warn w s)"
        using Cons.prems(4) safe_unchanged[OF u1, of ?tg] by (simp add: guarded_def warn_def)
      ultimately show ?thesis
        using r1 Cons.prems(2,3,5) dD safe_unchanged[OF u1] invalidTarget_unchanged[OF u1] d
        by (intro exI[of _ "warn w s"]) auto
    next
      case valid: False
      then obtain a where a: "byId s t = Some a" "etype (entries s a) = ''step''"
        by (auto simp: invalidTarget_def split: option.splits)
      from Cons.prems(1) False a d obtain s1 where
        r1: "setReplacementAlgorithmStart fuel e (stepNumbers (entries s a)) s = Some (Inr s1)"
        and r': "processReplacementAlgorithms fuel rest s1 = Some (Inr s')"
        by (auto split: option.splits sum.splits)
      have sfe: "safe ?tg s e" using Cons.prems(6) dD valid d by auto
      have k1: "keeps ?tg s s1"
        using protect_all(1)[rule_format, OF dl sfe Cons.prems(4) r1] .
      note e1 = effect_all(1)[rule_format, OF dl r1]
      have u1: "unchanged ({e} \<union> (pendingElems s - pendingElems s1)) s s1"
        and sh1: "shrinks s s1" using e1 by simp_all
      have d1: "distinct (pendingList s1 @ map fst rest)"
        using shrinks_distinct[OF sh1 dl] dr shrinks_pendingElems[OF sh1] pr
        by (auto simp: pendingElems_def)
      have g1: "guarded ?tg s1" using u1 sh1 Cons.prems(4) by (rule guarded_shrinks)
      have l1: "?tg \<subseteq> labeledStepsToBeRectified s1"
        using k1 Cons.prems(3) by (auto simp: keeps_def)
      have c1: "\<forall>d'\<in>D. d' \<in> set rest \<or>
           (\<exists>todo. map_of (pending s1) (snd d') = Some todo \<and> fst d' \<in> set todo)"
        using Cons.prems(5) dD k1 by (auto simp: keeps_def)
      have "labeledStepsToBeRectified s1 \<subseteq> labeledStepsToBeRectified s"
        using u1 by (simp add: unchanged_def)
      then show ?thesis
        using r' d1 g1 l1 c1 safe_unchanged[OF u1] invalidTarget_unchanged[OF u1]
        by (intro exI[of _ s1]) auto
    qed
  qed
  then obtain s1 where r: "processReplacementAlgorithms fuel rest s1 = Some (Inr s')"
    and A2: "distinct (pendingList s1 @ map fst rest)"
    and A3: "?tg \<subseteq> labeledStepsToBeRectified s1" and A4: "guarded ?tg s1"
    and A5: "\<forall>d\<in>D. d \<in> set rest \<or>
           (\<exists>todo. map_of (pending s1) (snd d) = Some todo \<and> fst d \<in> set todo)"
    and sf: "safe ?tg s1 = safe ?tg s" and iv: "invalidTarget s1 = invalidTarget s"
    and ls: "labeledStepsToBeRectified s1 \<subseteq> labeledStepsToBeRectified s" by blast
  have A6: "\<forall>d\<in>set rest. \<not> safe ?tg s1 (fst d) \<longrightarrow>
           d \<in> D \<or> (snd d \<notin> labeledStepsToBeRectified s1 \<and> invalidTarget s1 (snd d))"
    using Cons.prems(6) sf iv ls by auto
  show ?case using Cons.IH[OF r A2 A3 A4 A5 A6] .
qed

lemma offsets_effect:
  assumes dist: "distinct (map fst (replacementAlgorithms s))"
    and reg: "registered s (fst ` set (replacementAlgorithms s))"
    and own: "ownSteps s"
    and fuel: "length (replacementAlgorithms s) < fuel"
  shows "\<exists>sl. processReplacementAlgorithms fuel (replacementAlgorithms s) (s\<lparr>pending := []\<rparr>)
        = Some (Inr sl) \<and>
      setReplacementAlgorithmOffsets fuel s =
        Some (Inr (if pending sl \<noteq> [] then
                     warn (GlobalWarning ''invalid-replacement'' CouldNotDetermineOffsets) sl
                   else sl)) \<and>
      globalWarnings sl = globalWarnings s \<and>
      (\<forall>x\<in>pendingElems sl. rootLists sl x = rootLists s x \<and>
         (\<forall>a\<in>stepsOf s x. entries sl a = entries s a))"
proof -
  let ?s0 = "s\<lparr>pending := []\<rparr>"
  let ?ds = "replacementAlgorithms s"
  have p0: "pendingList ?s0 = []" "pendingElems ?s0 = {}"
    by (simp_all add: pendingList_def pendingElems_def)
  have st0: "stepsOf ?s0 = stepsOf s" by (simp add: stepsOf_def fun_eq_iff)
  have own0: "ownSteps ?s0" using own by (simp add: ownSteps_def st0)
  have A1: "distinct (pendingList ?s0 @ map fst ?ds)" using dist p0 by simp
  have A2: "registered ?s0 (pendingElems ?s0 \<union> fst ` set ?ds)"
    using reg p0 by (simp add: registered_def)
  have A3: "length (pending ?s0) + length ?ds < fuel" using fuel by simp
  from loop_effect[OF A1 A2 A3] obtain sl where
    r: "processReplacementAlgorithms fuel ?ds ?s0 = Some (Inr sl)"
    and u: "unchanged ((pendingElems ?s0 \<union> fst ` set ?ds) - pendingElems sl - unstartable ?s0 ?ds)
              ?s0 sl"
    and g: "globalWarnings sl = globalWarnings ?s0" by blast
  have keep: "\<forall>x\<in>pendingElems sl. rootLists sl x = rootLists s x \<and>
         (\<forall>a\<in>stepsOf s x. entries sl a = entries s a)"
  proof
    fix x assume "x \<in> pendingElems sl"
    then have "x \<notin> (pendingElems ?s0 \<union> fst ` set ?ds) - pendingElems sl - unstartable ?s0 ?ds"
      by simp
    from unchanged_outside[OF u this own0] st0
    show "rootLists sl x = rootLists s x \<and> (\<forall>a\<in>stepsOf s x. entries sl a = entries s a)"
      by simp
  qed
  have "globalWarnings sl = globalWarnings s" using g by (simp add: globalWarnings_def)
  then show ?thesis using r keep by (intro exI[of _ sl]) (simp add: setReplacementAlgorithmOffsets_def)
qed

subsection \<open>Claim C2: cycles and unreachable targets\<close>

text \<open>
  Claim C2. If the declarations contain a set \<open>D\<close> that can never be resolved (a cycle of
  replacement algorithms, or a target that no started algorithm rectifies), the resolver
  returns normally (it neither runs out of fuel, for any fuel above the number of
  declarations, nor raises), it emits exactly one global diagnostic, every
  declaration of \<open>D\<close> is still pending at the end, and every algorithm still pending
  has the root list and the entries it had before the run.
\<close>

theorem replacement_cycle_reported:
  assumes dist: "distinct (map fst (replacementAlgorithms s))"
    and reg: "registered s (fst ` set (replacementAlgorithms s))"
    and own: "ownSteps s"
    and fuel: "length (replacementAlgorithms s) < fuel"
    and stuck: "stuck s D" and ne: "D \<noteq> {}"
  shows "\<exists>s'. setReplacementAlgorithmOffsets fuel s = Some (Inr s') \<and>
      globalWarnings s' =
        globalWarnings s @ [GlobalWarning ''invalid-replacement'' CouldNotDetermineOffsets] \<and>
      fst ` D \<subseteq> pendingElems s' \<and>
      (\<forall>x\<in>pendingElems s'. rootLists s' x = rootLists s x \<and>
         (\<forall>a\<in>stepsOf s x. entries s' a = entries s a))"
proof -
  let ?s0 = "s\<lparr>pending := []\<rparr>"
  let ?ds = "replacementAlgorithms s"
  let ?w = "GlobalWarning ''invalid-replacement'' CouldNotDetermineOffsets"
  from offsets_effect[OF dist reg own fuel] obtain sl where
    r: "processReplacementAlgorithms fuel ?ds ?s0 = Some (Inr sl)"
    and o: "setReplacementAlgorithmOffsets fuel s =
        Some (Inr (if pending sl \<noteq> [] then warn ?w sl else sl))"
    and g: "globalWarnings sl = globalWarnings s"
    and keep: "\<forall>x\<in>pendingElems sl. rootLists sl x = rootLists s x \<and>
         (\<forall>a\<in>stepsOf s x. entries sl a = entries s a)" by blast
  have st0: "stepsOf ?s0 = stepsOf s" by (simp add: stepsOf_def fun_eq_iff)
  have B2: "distinct (pendingList ?s0 @ map fst ?ds)" using dist by (simp add: pendingList_def)
  have B3: "snd ` D \<subseteq> labeledStepsToBeRectified ?s0" using stuck by (simp add: stuck_def)
  have B4: "guarded (snd ` D) ?s0" by (simp add: guarded_def)
  have B5: "\<forall>d\<in>D. d \<in> set ?ds \<or>
      (\<exists>todo. map_of (pending ?s0) (snd d) = Some todo \<and> fst d \<in> set todo)"
    using stuck by (auto simp: stuck_def)
  have B6: "\<forall>d\<in>set ?ds. \<not> safe (snd ` D) ?s0 (fst d) \<longrightarrow>
      d \<in> D \<or> (snd d \<notin> labeledStepsToBeRectified ?s0 \<and> invalidTarget ?s0 (snd d))"
  proof (intro ballI impI)
    fix d assume d: "d \<in> set ?ds" and "\<not> safe (snd ` D) ?s0 (fst d)"
    then have "\<exists>a\<in>stepsOf s (fst d). eid (entries s a) \<in> snd ` D"
      by (simp add: safe_def st0)
    with stuck d have "d \<in> D \<or> (snd d \<notin> labeledStepsToBeRectified s \<and> invalidTarget s (snd d))"
      unfolding stuck_def by blast
    then show "d \<in> D \<or> (snd d \<notin> labeledStepsToBeRectified ?s0 \<and> invalidTarget ?s0 (snd d))"
      by (simp add: invalidTarget_def split: option.splits)
  qed
  note st = loop_stuck[OF r B2 B3 B4 B5 B6]
  have sub: "fst ` D \<subseteq> pendingElems sl"
  proof
    fix e assume "e \<in> fst ` D"
    then obtain d where d: "d \<in> D" "e = fst d" by auto
    with st obtain todo where "map_of (pending sl) (snd d) = Some todo" "fst d \<in> set todo"
      by blast
    then show "e \<in> pendingElems sl" using map_of_pendingElems d(2) by blast
  qed
  with ne have "pendingElems sl \<noteq> {}" by auto
  then have pne: "pending sl \<noteq> []" by (auto simp: pendingElems_def pendingList_def)
  let ?s' = "warn ?w sl"
  have "setReplacementAlgorithmOffsets fuel s = Some (Inr ?s')" using o pne by simp
  moreover have "globalWarnings ?s' = globalWarnings s @ [?w]"
    using g by (simp add: globalWarnings_def warn_def)
  moreover have "pendingElems ?s' = pendingElems sl" "rootLists ?s' = rootLists sl"
    "entries ?s' = entries sl"
    by (simp_all add: pendingElems_def pendingList_def warn_def)
  ultimately show ?thesis using sub keep by (intro exI[of _ ?s']) simp
qed

lemma cycleExample_wf:
  "distinct (map fst (replacementAlgorithms cycleExample))"
  "registered cycleExample (fst ` set (replacementAlgorithms cycleExample))"
  "ownSteps cycleExample"
  "length (replacementAlgorithms cycleExample) < 3"
  by (simp_all add: cycleExample_def registered_def ownSteps_def stepsOf_def)

lemma cycleExample_stuck: "stuck cycleExample {(0, ''b1''), (1, ''a1'')}"
  by (simp add: stuck_def cycleExample_def stepsOf_def)

text \<open>The theorem at two algorithms that replace a step of each other.\<close>

theorem replacement_cycle_reported_witness:
  "\<exists>s'. setReplacementAlgorithmOffsets 3 cycleExample = Some (Inr s') \<and>
     globalWarnings s' = [GlobalWarning ''invalid-replacement'' CouldNotDetermineOffsets] \<and>
     {0, 1} \<subseteq> pendingElems s' \<and>
     rootLists s' 0 = Some \<lparr>start = None, classList = []\<rparr> \<and>
     rootLists s' 1 = Some \<lparr>start = None, classList = []\<rparr> \<and>
     stepNumbers (entries s' 0) = [1] \<and> stepNumbers (entries s' 1) = [1]"
proof -
  have ne: "{(0::nat, ''b1''), (1, ''a1'')} \<noteq> {}" by simp
  from replacement_cycle_reported[OF cycleExample_wf cycleExample_stuck ne]
  obtain s' where r: "setReplacementAlgorithmOffsets 3 cycleExample = Some (Inr s')"
    and g: "globalWarnings s' = globalWarnings cycleExample @
          [GlobalWarning ''invalid-replacement'' CouldNotDetermineOffsets]"
    and p: "fst ` {(0::nat, ''b1''), (1, ''a1'')} \<subseteq> pendingElems s'"
    and k: "\<forall>x\<in>pendingElems s'. rootLists s' x = rootLists cycleExample x \<and>
         (\<forall>a\<in>stepsOf cycleExample x. entries s' a = entries cycleExample a)"
    by blast
  have p': "{0, 1} \<subseteq> pendingElems s'" using p by simp
  have "rootLists s' 0 = rootLists cycleExample 0" "rootLists s' 1 = rootLists cycleExample 1"
    "entries s' 0 = entries cycleExample 0" "entries s' 1 = entries cycleExample 1"
    using k p' by (auto simp: stepsOf_def cycleExample_def)
  then show ?thesis using r g p'
    by (intro exI[of _ s']) (simp add: cycleExample_def globalWarnings_def)
qed

subsection \<open>Claim C3: invalid targets\<close>

text \<open>
  Claim C3. When the loop reaches a declaration whose target is not waiting to be
  rectified and the biblio has no entry for it, or an entry that is not a step, the
  resolver emits an \<open>attr\<close> warning on the declaration's element, goes on with the
  remaining declarations in a state that differs in this warning only, and at the end of
  the loop the warning is recorded and the algorithm has the root list and the entries it
  had when the declaration was reached.
\<close>

theorem invalid_target_reported:
  assumes nt: "target \<notin> labeledStepsToBeRectified s"
    and inv: "invalidTarget s target"
    and dist: "distinct (pendingList s @ map fst ((element, target) # rest))"
    and reg: "registered s (pendingElems s \<union> fst ` set rest)"
    and fuel: "length (pending s) + length rest < fuel"
    and own: "ownSteps s"
  shows "\<exists>w s'.
      w = AttrWarning element ''replaces-step'' ''invalid-replacement''
            (case byId s target of
               None \<Rightarrow> CouldNotFindStep target
             | Some a \<Rightarrow> ExpectedStepNotA (etype (entries s a))) \<and>
      processReplacementAlgorithms fuel ((element, target) # rest) s =
        processReplacementAlgorithms fuel rest (warn w s) \<and>
      processReplacementAlgorithms fuel rest (warn w s) = Some (Inr s') \<and>
      w \<in> set (warnings s') \<and>
      rootLists s' element = rootLists s element \<and>
      (\<forall>a\<in>stepsOf s element. entries s' a = entries s a)"
proof -
  let ?w = "AttrWarning element ''replaces-step'' ''invalid-replacement''
            (case byId s target of
               None \<Rightarrow> CouldNotFindStep target
             | Some a \<Rightarrow> ExpectedStepNotA (etype (entries s a)))"
  let ?s1 = "warn ?w s"
  have eq: "processReplacementAlgorithms fuel ((element, target) # rest) s =
        processReplacementAlgorithms fuel rest ?s1"
    using nt inv by (auto simp: invalidTarget_def split: option.splits)
  have p1: "pendingList ?s1 = pendingList s" "pendingElems ?s1 = pendingElems s"
    "pending ?s1 = pending s"
    by (simp_all add: pendingList_def pendingElems_def warn_def)
  have u1: "unchanged {} s ?s1" by (rule unchanged_warn)
  have A1: "distinct (pendingList ?s1 @ map fst rest)" using dist p1 by simp
  have A2: "registered ?s1 (pendingElems ?s1 \<union> fst ` set rest)"
    using registered_unchanged[OF u1 reg] p1 by simp
  have A3: "length (pending ?s1) + length rest < fuel" using fuel p1 by simp
  from loop_effect[OF A1 A2 A3] obtain s' where
    r: "processReplacementAlgorithms fuel rest ?s1 = Some (Inr s')"
    and u: "unchanged ((pendingElems ?s1 \<union> fst ` set rest) - pendingElems s' - unstartable ?s1 rest)
              ?s1 s'"
    and w: "set (warnings ?s1) \<subseteq> set (warnings s')" by blast
  have "element \<notin> pendingElems s \<union> fst ` set rest"
    using dist by (auto simp: pendingElems_def)
  then have out: "element \<notin> (pendingElems ?s1 \<union> fst ` set rest) - pendingElems s'
      - unstartable ?s1 rest" using p1 by simp
  have own1: "ownSteps ?s1" using u1 own by (rule ownSteps_unchanged)
  have st1: "stepsOf ?s1 = stepsOf s" using u1 by (rule unchanged_stepsOf)
  from unchanged_outside[OF u out own1] st1
  have "rootLists s' element = rootLists s element"
    "\<forall>a\<in>stepsOf s element. entries s' a = entries s a"
    by (simp_all add: warn_def)
  moreover have "?w \<in> set (warnings s')" using w by (auto simp: warn_def)
  ultimately show ?thesis using eq r by blast
qed

lemma invalidExample_wf:
  "''nope'' \<notin> labeledStepsToBeRectified invalidExample"
  "invalidTarget invalidExample ''nope''"
  "distinct (pendingList invalidExample @ map fst [(0, ''nope''), (1, ''s1'')])"
  "registered invalidExample (pendingElems invalidExample \<union> fst ` set [(1, ''s1'')])"
  "length (pending invalidExample) + length [(1::nat, ''s1'')] < 2"
  "ownSteps invalidExample"
  by (simp_all add: invalidExample_def invalidTarget_def pendingList_def pendingElems_def
      registered_def ownSteps_def stepsOf_def)

text \<open>The theorem at a declaration with the unknown target \<open>nope\<close>.\<close>

theorem invalid_target_reported_witness:
  "\<exists>s'. processReplacementAlgorithms 2 [(0, ''nope''), (1, ''s1'')] invalidExample
       = Some (Inr s') \<and>
     AttrWarning 0 ''replaces-step'' ''invalid-replacement'' (CouldNotFindStep ''nope'')
       \<in> set (warnings s') \<and>
     rootLists s' 0 = Some \<lparr>start = None, classList = []\<rparr> \<and>
     stepNumbers (entries s' 1) = [1]"
proof -
  from invalid_target_reported[OF invalidExample_wf]
  obtain w s' where w: "w = AttrWarning 0 ''replaces-step'' ''invalid-replacement''
            (case byId invalidExample ''nope'' of
               None \<Rightarrow> CouldNotFindStep ''nope''
             | Some a \<Rightarrow> ExpectedStepNotA (etype (entries invalidExample a)))"
    and eq: "processReplacementAlgorithms 2 [(0, ''nope''), (1, ''s1'')] invalidExample =
        processReplacementAlgorithms 2 [(1, ''s1'')] (warn w invalidExample)"
    and r: "processReplacementAlgorithms 2 [(1, ''s1'')] (warn w invalidExample) = Some (Inr s')"
    and win: "w \<in> set (warnings s')"
    and rl: "rootLists s' 0 = rootLists invalidExample 0"
    and en: "\<forall>a\<in>stepsOf invalidExample 0. entries s' a = entries invalidExample a"
    by blast
  have "w = AttrWarning 0 ''replaces-step'' ''invalid-replacement'' (CouldNotFindStep ''nope'')"
    using w by (simp add: invalidExample_def)
  moreover have "entries s' 1 = entries invalidExample 1"
    using en by (simp add: stepsOf_def invalidExample_def)
  ultimately show ?thesis using eq r win rl
    by (intro exI[of _ s']) (simp add: invalidExample_def)
qed

section \<open>Properties of the build process\<close>


lemmas build_defs = thenDo_def loadECMA262Biblio_def loadBiblios_def loadImports_def
  buildBoilerplate_def lintStep_def tocStep_def begin_phase_def throwIfCancellationRequested_def

lemma thenDo_thrown: "thrown s = Some e \<Longrightarrow> thenDo s f = s"
  by (simp add: thenDo_def)

lemma thenDo_running: "thrown s = None \<Longrightarrow> thenDo s f = f s"
  by (simp add: thenDo_def)

lemma foldl_thenDo_thrown: "thrown s = Some e \<Longrightarrow> foldl thenDo s fs = s"
  by (induction fs) (simp_all add: thenDo_thrown)

lemma begin_phase_simps [simp]:
  "thrown (begin_phase ph s) = thrown s" "trace (begin_phase ph s) = trace s @ [ph]"
  by (simp_all add: begin_phase_def)

lemma build_split: "build inp = foldl thenDo (beforeWalk inp) (afterWalk inp)"
  by (simp add: build_def beforeWalk_def afterWalk_def)



lemma beforeWalk_trace:
  "set (trace (beforeWalk inp)) \<subseteq>
     {LoadECMA262Biblio, LoadBiblios, LoadImports, BuildBoilerplate, Lint}"
  by (simp add: beforeWalk_def build_defs split: if_splits)

lemma tocStep_thrown [simp]: "thrown (tocStep inp s) = thrown s"
  by (simp add: tocStep_def)

lemma afterWalk_running:
  assumes "thrown s = None"
  shows "thrown (foldl thenDo s (afterWalk inp)) = None"
    and "\<exists>post. trace (foldl thenDo s (afterWalk inp)) =
      trace s @ [Walk, SetReplacementAlgorithmOffsets, Autolink, LinkXrefs, LinkNtRefs,
        LinkProdRefs, BuildReferenceGraph] @ post \<and>
      set post \<subseteq> {HighlightCode, SetCharset, SetFirstH1Class, BuildSpecWrapper, BuildToc,
        BuildMenu, BuildAssets}"
  using assms by (simp_all add: afterWalk_def thenDo_running tocStep_def)

subsection \<open>Claim C6: where the cancellation token is checked\<close>




subsection \<open>Claim C7: the order of the passes after the walk\<close>

text \<open>
  Claim C7, as the code has it. In every run that gets to the walk, the walk is followed
  directly by the replacement-step resolver, then the autolinker, then the reference
  resolver (cross-references, non-terminal references, production references and the
  reference graph), in this order; only phases that come before the walk precede it.
\<close>

theorem passes_order:
  "Walk \<in> set (trace (build inp)) \<longrightarrow>
     (\<exists>pre post. trace (build inp) =
        pre @ [Walk, SetReplacementAlgorithmOffsets, Autolink, LinkXrefs, LinkNtRefs,
               LinkProdRefs, BuildReferenceGraph] @ post \<and>
        set pre \<subseteq> {LoadECMA262Biblio, LoadBiblios, LoadImports, BuildBoilerplate, Lint} \<and>
        set post \<subseteq> {HighlightCode, SetCharset, SetFirstH1Class, BuildSpecWrapper, BuildToc,
          BuildMenu, BuildAssets})"
proof (cases "thrown (beforeWalk inp)")
  case None
  from afterWalk_running(2)[OF None, of inp] beforeWalk_trace[of inp]
  show ?thesis unfolding build_split by blast
next
  case (Some e)
  then have "build inp = beforeWalk inp" by (simp add: build_split foldl_thenDo_thrown)
  then have "Walk \<notin> set (trace (build inp))" using beforeWalk_trace[of inp] by auto
  then show ?thesis by simp
qed

text \<open>The theorem at a run that is never cancelled.\<close>

theorem passes_order_witness:
  "Walk \<in> set (trace (build neverCancelled)) \<and>
   trace (build neverCancelled) =
     [LoadECMA262Biblio, LoadBiblios, LoadImports, BuildBoilerplate] @
     [Walk, SetReplacementAlgorithmOffsets, Autolink, LinkXrefs, LinkNtRefs,
      LinkProdRefs, BuildReferenceGraph] @
     [HighlightCode, SetCharset, SetFirstH1Class, BuildSpecWrapper, BuildMenu, BuildAssets]"
  using passes_order[of neverCancelled]
  by (simp add: build_def build_defs neverCancelled_def)

text \<open>
  Claim C7 puts the reference resolver before the autolinker. In a run it is the other
  way round: \<open>autolink\<close> is called before the cross-references are linked.
\<close>

theorem passes_order_counterexample:
  "thrown (build neverCancelled) = None \<and>
   precedes Autolink LinkXrefs (trace (build neverCancelled)) \<and>
   \<not> precedes LinkXrefs Autolink (trace (build neverCancelled)) \<and>
   \<not> precedes BuildReferenceGraph Autolink (trace (build neverCancelled))"
  by (simp add: build_def build_defs neverCancelled_def precedes_def)


section \<open>Properties of the content extraction of the grammar builder\<close>

subsection \<open>The results of the matchers\<close>








lemma boundary_iff:
  "q \<in> set (boundary (pv, s)) \<longleftrightarrow>
     q = (pv, s) \<and> (case pv of None \<Rightarrow> False | Some c \<Rightarrow> isWordChar c) \<noteq>
       (case s of [] \<Rightarrow> False | c # r \<Rightarrow> isWordChar c)"
  by (auto simp: boundary_def)


subsection \<open>The shape of a match\<close>


lemma canonicalize_punct [simp]:
  "canonicalize x = CHR ''<'' \<longleftrightarrow> x = CHR ''<''"
  "canonicalize x = CHR ''/'' \<longleftrightarrow> x = CHR ''/''"
  "canonicalize x = CHR ''>'' \<longleftrightarrow> x = CHR ''>''"
  by (auto simp: canonicalize_def split: option.splits if_splits)

lemma canonicalize_punct2 [simp]:
  "canonicalize CHR ''<'' = CHR ''<''" "canonicalize CHR ''/'' = CHR ''/''"
  "canonicalize CHR ''>'' = CHR ''>''"
  by (simp_all add: canonicalize_def)
















subsection \<open>Claim C10: the scan for a possible end tag\<close>






section \<open>Properties of the reference graph\<close>

subsection \<open>The ids made from the counter are distinct\<close>








subsection \<open>One reference at a time\<close>























subsection \<open>Claim C8: ids and back-references\<close>





section \<open>Properties of the tree walk\<close>

lemmas walk_defs = arrive_def expandEmphasis_def recordTextNode_def Let_def








lemma exampleEnv_heading: "headingEnv [''EMU-CLAUSE''] exampleEnv"
  by (simp add: headingEnv_def keepsClauses_def exampleEnv_def)

subsection \<open>The suppression flags\<close>




subsection \<open>Text nodes\<close>



subsection \<open>The header of a clause\<close>

text \<open>
  What the walk of an element does to the clause stack and to the headers, in terms of
  the hooks of its builder and of the walk of its children.
\<close>

lemma walk_element_clauses:
  "\<exists>c4. clauseStack c4 = clauseStack c \<and> header c4 = header c \<and> contextNode c4 = n \<and>
     (\<forall>c5 c6 c7.
        c5 = (case visitorMap e name of None \<Rightarrow> c4 | Some v \<Rightarrow> visitorEnter v c4) \<longrightarrow>
        c6 = (if cs = [] then c5 else (walkChildren e f cs c5)\<lparr>contextNode := n\<rparr>) \<longrightarrow>
        c7 = (case visitorMap e name of None \<Rightarrow> c6 | Some v \<Rightarrow> visitorExit v c6) \<longrightarrow>
        clauseStack (walk e f (ElementNode n name ia cs) c) = clauseStack c7 \<and>
        header (walk e f (ElementNode n name ia cs) c) = header c7)"
proof -
  define c1 where "c1 = arrive n c"
  define c2 where "c2 = (case ia of None \<Rightarrow> c1 | Some v \<Rightarrow> c1\<lparr>currentId := Some v\<rparr>)"
  define c3 where "c3 = (if name \<in> noClauseAutolink e \<and> \<not> inNoAutolink c2
                         then c2\<lparr>inNoAutolink := True\<rparr> else c2)"
  define c4 where "c4 = (if name \<in> NO_EMD \<and> \<not> inNoEmd c3 then c3\<lparr>inNoEmd := True\<rparr> else c3)"
  have a: "clauseStack c4 = clauseStack c \<and> header c4 = header c \<and> contextNode c4 = n"
    by (simp add: c4_def c3_def c2_def c1_def arrive_def Let_def split: option.splits)
  have b: "walk e f (ElementNode n name ia cs) c =
     (let c5 = (case visitorMap e name of None \<Rightarrow> c4 | Some v \<Rightarrow> visitorEnter v c4);
          c6 = (if cs = [] then c5 else (walkChildren e f cs c5)\<lparr>contextNode := n\<rparr>);
          c7 = (case visitorMap e name of None \<Rightarrow> c6 | Some v \<Rightarrow> visitorExit v c6);
          c8 = (if name \<in> noClauseAutolink e \<and> \<not> inNoAutolink c2
                then c7\<lparr>inNoAutolink := False\<rparr> else c7);
          c9 = (if name \<in> NO_EMD \<and> \<not> inNoEmd c3 then c8\<lparr>inNoEmd := False\<rparr> else c8)
      in c9\<lparr>currentId := currentId c1, tagStack := butlast (tagStack c9)\<rparr>)"
    unfolding walk.simps c4_def c3_def c2_def c1_def Let_def by (rule refl)
  show ?thesis
    apply (rule exI[of _ c4])
    apply (simp only: a b Let_def)
    apply simp
    done
qed


lemma headingEnvD:
  assumes "headingEnv K e"
  shows "visitorMap e ''H1'' = Some H1"
    and "''H1'' \<notin> set K"
    and "name \<in> set K \<Longrightarrow> visitorMap e name = Some Clause"
    and "name \<noteq> ''H1'' \<Longrightarrow> name \<notin> set K \<Longrightarrow> visitorMap e name = Some v \<Longrightarrow>
           clauseStack (visitorEnter v c) = clauseStack c \<and> header (visitorEnter v c) = header c \<and>
           clauseStack (visitorExit v c) = clauseStack c \<and> header (visitorExit v c) = header c"
  using assms unfolding headingEnv_def keepsClauses_def by blast+

lemma header_all:
  fixes c0 :: walkContext
  assumes H: "headingEnv K e"
  shows "\<forall>c. clauseStack (walk e f nd c) = clauseStack c \<and>
           (\<forall>k. k \<notin> clauseRefs K nd \<longrightarrow>
              header (walk e f nd c) k =
                (if clauseStack c \<noteq> [] \<and> k = last (clauseStack c) \<and> header c k = None
                 then firstHeading K nd else header c k))"
    and "\<forall>c. clauseStack (walkChildren e f nds c) = clauseStack c \<and>
           (\<forall>k. k \<notin> clauseRefsOf K nds \<longrightarrow>
              header (walkChildren e f nds c) k =
                (if clauseStack c \<noteq> [] \<and> k = last (clauseStack c) \<and> header c k = None
                 then firstHeadings K nds else header c k))"
  using H
proof (induction e f nd c0 and e f nds c0 rule: walk_walkChildren.induct)
  case (1 e following n content c)
  show ?case by (simp add: walk_defs)
next
  case (2 e following n name idAttribute children c0)
  note E = headingEnvD[OF "2.prems"]
  have IH: "clauseStack (walkChildren e following children c) = clauseStack c \<and>
           (\<forall>k. k \<notin> clauseRefsOf K children \<longrightarrow>
              header (walkChildren e following children c) k =
                (if clauseStack c \<noteq> [] \<and> k = last (clauseStack c) \<and> header c k = None
                 then firstHeadings K children else header c k))" for c
  proof (cases "children = []")
    case True
    then show ?thesis by simp
  next
    case False
    from "2.IH"[OF refl refl refl refl refl refl refl refl False "2.prems"]
    show ?thesis by (rule spec)
  qed
  show ?case
  proof (intro allI)
    fix c
    from walk_element_clauses[of c n e name children following idAttribute]
    obtain c4 where a: "clauseStack c4 = clauseStack c" "header c4 = header c" "contextNode c4 = n"
      and W: "\<And>c5 c6 c7.
        c5 = (case visitorMap e name of None \<Rightarrow> c4 | Some v \<Rightarrow> visitorEnter v c4) \<Longrightarrow>
        c6 = (if children = [] then c5 else (walkChildren e following children c5)\<lparr>contextNode := n\<rparr>) \<Longrightarrow>
        c7 = (case visitorMap e name of None \<Rightarrow> c6 | Some v \<Rightarrow> visitorExit v c6) \<Longrightarrow>
        clauseStack (walk e following (ElementNode n name idAttribute children) c) = clauseStack c7 \<and>
        header (walk e following (ElementNode n name idAttribute children) c) = header c7"
      by blast
    define c5 where "c5 = (case visitorMap e name of None \<Rightarrow> c4 | Some v \<Rightarrow> visitorEnter v c4)"
    define c6 where "c6 = (if children = [] then c5 else (walkChildren e following children c5)\<lparr>contextNode := n\<rparr>)"
    define c7 where "c7 = (case visitorMap e name of None \<Rightarrow> c6 | Some v \<Rightarrow> visitorExit v c6)"
    define w where "w = walk e following (ElementNode n name idAttribute children) c"
    have R: "clauseStack w = clauseStack c7 \<and> header w = header c7"
      unfolding w_def by (rule W[OF c5_def c6_def c7_def])
    have c6w: "clauseStack c6 = clauseStack (walkChildren e following children c5)"
      "header c6 = header (walkChildren e following children c5)"
      by (simp_all add: c6_def)
    have c6s: "clauseStack c6 = clauseStack c5"
      using IH[of c5, THEN conjunct1] c6w(1) by simp
    have c6h: "k \<notin> clauseRefsOf K children \<Longrightarrow> header c6 k =
                (if clauseStack c5 \<noteq> [] \<and> k = last (clauseStack c5) \<and> header c5 k = None
                 then firstHeadings K children else header c5 k)" for k
      using IH[of c5, THEN conjunct2, rule_format, of k] c6w(2) by simp
    consider (h1) "name = ''H1''" | (clause) "name \<in> set K" "name \<noteq> ''H1''"
      | (other) "name \<noteq> ''H1''" "name \<notin> set K" by blast
    then have "clauseStack w = clauseStack c \<and>
           (\<forall>k. k \<notin> clauseRefs K (ElementNode n name idAttribute children) \<longrightarrow>
              header w k =
                (if clauseStack c \<noteq> [] \<and> k = last (clauseStack c) \<and> header c k = None
                 then firstHeading K (ElementNode n name idAttribute children) else header c k))"
    proof cases
      case h1
      have c5s: "clauseStack c5 = clauseStack c"
        using h1 E(1) a by (simp add: c5_def H1_def H1_enter_def Let_def)
      have c5h: "header c5 = (if clauseStack c \<noteq> [] \<and> header c (last (clauseStack c)) = None
                   then (header c)(last (clauseStack c) \<mapsto> n) else header c)"
        using h1 E(1) a by (simp add: c5_def H1_def H1_enter_def Let_def)
      have c7e: "c7 = c6" using h1 E(1) by (simp add: c7_def H1_def)
      have s: "clauseStack w = clauseStack c"
        using R c7e c6s c5s by simp
      have h: "header w k =
                (if clauseStack c \<noteq> [] \<and> k = last (clauseStack c) \<and> header c k = None
                 then Some n else header c k)" if "k \<notin> clauseRefsOf K children" for k
        using R c7e c6h[OF that] c5s c5h by (auto split: if_splits)
      show ?thesis using s h h1 E(2) by auto
    next
      case clause
      have vm: "visitorMap e name = Some Clause" using E(3)[OF clause(1)] .
      have c5s: "clauseStack c5 = clauseStack c @ [n]"
        using vm a by (simp add: c5_def Clause_def Clause_enter_def)
      have c5h: "header c5 = (header c)(n := None)"
        using vm a by (simp add: c5_def Clause_def Clause_enter_def)
      have c7s: "clauseStack c7 = clauseStack c"
        using vm c6s c5s by (simp add: c7_def Clause_def Clause_exit_def)
      have c7h: "header c7 = header c6"
        using vm by (simp add: c7_def Clause_def Clause_exit_def)
      have h: "header w k = header c k"
        if "k \<notin> clauseRefsOf K children" "k \<noteq> n" for k
        using R c7h c6h[OF that(1)] c5s c5h that(2) by (auto split: if_splits)
      show ?thesis using R c7s h clause by auto
    next
      case other
      have c5e: "clauseStack c5 = clauseStack c \<and> header c5 = header c"
        using E(4)[OF other] a by (simp add: c5_def split: option.splits)
      have c7e: "clauseStack c7 = clauseStack c6 \<and> header c7 = header c6"
        using E(4)[OF other] by (simp add: c7_def split: option.splits)
      have h: "header w k =
                (if clauseStack c \<noteq> [] \<and> k = last (clauseStack c) \<and> header c k = None
                 then firstHeadings K children else header c k)" if "k \<notin> clauseRefsOf K children" for k
        using R c7e c6h[OF that] c5e by (auto split: if_splits)
      show ?thesis using R c7e c6s c5e h other by auto
    qed
    then show "clauseStack (walk e following (ElementNode n name idAttribute children) c) = clauseStack c \<and>
           (\<forall>k. k \<notin> clauseRefs K (ElementNode n name idAttribute children) \<longrightarrow>
              header (walk e following (ElementNode n name idAttribute children) c) k =
                (if clauseStack c \<noteq> [] \<and> k = last (clauseStack c) \<and> header c k = None
                 then firstHeading K (ElementNode n name idAttribute children) else header c k))"
      unfolding w_def .
  qed
next
  case (3 e following c)
  show ?case by simp
next
  case (4 e following child rest c)
  note A = "4.IH"(1)[OF "4.prems", rule_format]
  note B = "4.IH"(2)[OF "4.prems", rule_format]
  show ?case
  proof (intro allI conjI impI)
    fix c
    show "clauseStack (walkChildren e following (child # rest) c) = clauseStack c"
      using A B by simp
  next
    fix c k
    assume k: "k \<notin> clauseRefsOf K (child # rest)"
    define nx where "nx = (case rest of [] \<Rightarrow> following | next # others \<Rightarrow> Some (nodeRef next))"
    define c' where "c' = walk e nx child c"
    have k1: "k \<notin> clauseRefs K child" and k2: "k \<notin> clauseRefsOf K rest" using k by simp_all
    have s': "clauseStack c' = clauseStack c" using A[of c] by (simp add: c'_def nx_def)
    have h': "header c' k = (if clauseStack c \<noteq> [] \<and> k = last (clauseStack c) \<and> header c k = None
                 then firstHeading K child else header c k)"
      using A[of c, THEN conjunct2, rule_format, OF k1] by (simp add: c'_def nx_def)
    have r: "header (walkChildren e following rest c') k =
         (if clauseStack c' \<noteq> [] \<and> k = last (clauseStack c') \<and> header c' k = None
                 then firstHeadings K rest else header c' k)"
      using B[of c', THEN conjunct2, rule_format, OF k2] by (simp add: c'_def nx_def)
    have w: "walkChildren e following (child # rest) c = walkChildren e following rest c'"
      by (simp add: c'_def nx_def)
    show "header (walkChildren e following (child # rest) c) k =
         (if clauseStack c \<noteq> [] \<and> k = last (clauseStack c) \<and> header c k = None
          then firstHeadings K (child # rest) else header c k)"
      unfolding w r s' h' by (auto split: option.splits)
  qed
qed

text \<open>
  Claim C9, as far as it holds. The clause builder is taken from the specification, and
  the hooks of the builders other than it and \<open>H1\<close> are taken to leave the clause stack
  and the headers alone. The identity of a clause element is not that of a clause element
  inside it. Then after the walk of a clause element its header is the first \<open>H1\<close>
  element, in document order, inside the clause and outside the clauses nested in it,
  whether a child of the clause or deeper, before or after a nested clause; there is no
  header if there is no such element. The walk leaves the clause stack as it found it,
  and the headers of the clauses outside as they were.
\<close>

theorem clause_header_first_heading:
  assumes H: "headingEnv K e" and N: "name \<in> set K" and F: "n \<notin> clauseRefsOf K children"
  shows "header (walk e f (ElementNode n name ia children) c) n = firstHeadings K children \<and>
     clauseStack (walk e f (ElementNode n name ia children) c) = clauseStack c \<and>
     (\<forall>k. k \<noteq> n \<and> k \<notin> clauseRefsOf K children \<longrightarrow>
        header (walk e f (ElementNode n name ia children) c) k = header c k)"
proof -
  note E = headingEnvD[OF H]
  have vm: "visitorMap e name = Some Clause" using E(3)[OF N] .
  have nh: "name \<noteq> ''H1''" using N E(2) by blast
  from walk_element_clauses[of c n e name children f ia]
  obtain c4 where a: "clauseStack c4 = clauseStack c" "header c4 = header c" "contextNode c4 = n"
    and W: "\<And>c5 c6 c7.
      c5 = (case visitorMap e name of None \<Rightarrow> c4 | Some v \<Rightarrow> visitorEnter v c4) \<Longrightarrow>
      c6 = (if children = [] then c5 else (walkChildren e f children c5)\<lparr>contextNode := n\<rparr>) \<Longrightarrow>
      c7 = (case visitorMap e name of None \<Rightarrow> c6 | Some v \<Rightarrow> visitorExit v c6) \<Longrightarrow>
      clauseStack (walk e f (ElementNode n name ia children) c) = clauseStack c7 \<and>
      header (walk e f (ElementNode n name ia children) c) = header c7"
    by blast
  define c5 where "c5 = (case visitorMap e name of None \<Rightarrow> c4 | Some v \<Rightarrow> visitorEnter v c4)"
  define c6 where "c6 = (if children = [] then c5 else (walkChildren e f children c5)\<lparr>contextNode := n\<rparr>)"
  define c7 where "c7 = (case visitorMap e name of None \<Rightarrow> c6 | Some v \<Rightarrow> visitorExit v c6)"
  define w where "w = walk e f (ElementNode n name ia children) c"
  have R: "clauseStack w = clauseStack c7" "header w = header c7"
    unfolding w_def using W[OF c5_def c6_def c7_def] by blast+
  have c5s: "clauseStack c5 = clauseStack c @ [n]"
    using vm a by (simp add: c5_def Clause_def Clause_enter_def)
  have c5h: "header c5 = (header c)(n := None)"
    using vm a by (simp add: c5_def Clause_def Clause_enter_def)
  have c6w: "clauseStack c6 = clauseStack (walkChildren e f children c5)"
    "header c6 = header (walkChildren e f children c5)"
    by (simp_all add: c6_def)
  note IH = header_all(2)[OF H, rule_format, of f children c5]
  have c6s: "clauseStack c6 = clauseStack c @ [n]"
    using IH[THEN conjunct1] c6w(1) c5s by simp
  have c6h: "header c6 k =
      (if clauseStack c5 \<noteq> [] \<and> k = last (clauseStack c5) \<and> header c5 k = None
       then firstHeadings K children else header c5 k)" if "k \<notin> clauseRefsOf K children" for k
    using IH[THEN conjunct2, rule_format, OF that] c6w(2) by simp
  have c7s: "clauseStack c7 = clauseStack c"
    using vm c6s by (simp add: c7_def Clause_def Clause_exit_def)
  have c7h: "header c7 = header c6"
    using vm by (simp add: c7_def Clause_def Clause_exit_def)
  have own: "header w n = firstHeadings K children"
    using R(2) c7h c6h[OF F] c5s c5h by simp
  have others: "header w k = header c k" if "k \<noteq> n" "k \<notin> clauseRefsOf K children" for k
    using R(2) c7h c6h[OF that(2)] c5s c5h that(1) by simp
  have "header w n = firstHeadings K children \<and> clauseStack w = clauseStack c \<and>
     (\<forall>k. k \<noteq> n \<and> k \<notin> clauseRefsOf K children \<longrightarrow> header w k = header c k)"
    using own others R(1) c7s by simp
  then show ?thesis unfolding w_def .
qed

text \<open>
  The theorem at a clause with two headings and a nested clause: the header is the first
  heading, and the heading of the nested clause is the header of that clause.
\<close>

theorem clause_header_first_heading_witness:
  "headingEnv [''EMU-CLAUSE''] exampleEnv \<and>
   header (walk exampleEnv None clauseExample (initialContext ''ns'')) 1 = Some 2 \<and>
   clauseStack (walk exampleEnv None clauseExample (initialContext ''ns'')) = []"
proof -
  have p: "ElementNode 1 ''EMU-CLAUSE'' (Some ''a'') (childrenOf clauseExample) = clauseExample"
    by (simp add: clauseExample_def)
  have h1: "''EMU-CLAUSE'' \<in> set [''EMU-CLAUSE'']" by simp
  have h2: "1 \<notin> clauseRefsOf [''EMU-CLAUSE''] (childrenOf clauseExample)"
    by (simp add: clauseExample_def)
  have v: "firstHeadings [''EMU-CLAUSE''] (childrenOf clauseExample) = Some 2"
    by (simp add: clauseExample_def)
  have i: "clauseStack (initialContext ''ns'') = []" by (simp add: initialContext_def)
  note T = clause_header_first_heading[OF exampleEnv_heading h1 h2,
      where f = None and ia = "Some ''a''" and c = "initialContext ''ns''"]
  from T[unfolded p v i] exampleEnv_heading show ?thesis by blast
qed

text \<open>
  Claim C9 takes the header among the children of the clause, before any nested clause.
  In \<open><emu-clause><div><h1>A</h1></div></emu-clause>\<close> the heading is no child of the clause
  and is its header; in the second example the only heading of the outer clause comes
  after the nested clause and is its header.
\<close>

theorem clause_header_counterexample:
  "headingEnv [''EMU-CLAUSE''] exampleEnv \<and>
   header (walk exampleEnv None wrappedHeadingExample (initialContext ''ns'')) 1 = Some 3 \<and>
   specHeader [''EMU-CLAUSE''] (childrenOf wrappedHeadingExample) = None \<and>
   header (walk exampleEnv None lateHeadingExample (initialContext ''ns'')) 1 = Some 5 \<and>
   specHeader [''EMU-CLAUSE''] (childrenOf lateHeadingExample) = None"
proof -
  have a: "header (walk exampleEnv None wrappedHeadingExample (initialContext ''ns'')) 1 = Some 3"
    by code_simp
  have b: "specHeader [''EMU-CLAUSE''] (childrenOf wrappedHeadingExample) = None"
    by code_simp
  have c: "header (walk exampleEnv None lateHeadingExample (initialContext ''ns'')) 1 = Some 5"
    by code_simp
  have d: "specHeader [''EMU-CLAUSE''] (childrenOf lateHeadingExample) = None"
    by code_simp
  from exampleEnv_heading a b c d show ?thesis by blast
qed

end
